theory Spec2Isabelle
  imports Main "HOL-Library.Multiset"
begin

section \<open>Python values used by the B-Tree code\<close>

text \<open>
  The B-Tree of the notebook (classes \<^verbatim>\<open>BTreeNode\<close> and \<^verbatim>\<open>BTree\<close>) works on Python lists
  and unbounded integers. Keys, the order \<^verbatim>\<open>t\<close>, the counter \<^verbatim>\<open>n_keys\<close> and every list
  index are modelled as \<^typ>\<open>int\<close>. An exception is a value \<open>Inl e\<close> of the result.
\<close>

datatype error = IndexError | TypeError

text \<open>
  \<^verbatim>\<open>xs[i]\<close>: an index from \<open>-len\<close> up to \<open>len - 1\<close> is accepted, a negative one counts
  from the end, anything else raises \<^verbatim>\<open>IndexError\<close>. \<open>py_index\<close> gives the position read.
\<close>

definition py_index :: "nat \<Rightarrow> int \<Rightarrow> error + nat" where
  "py_index len i =
     (if 0 \<le> i \<and> i < int len then Inr (nat i)
      else if i < 0 \<and> - int len \<le> i then Inr (nat (int len + i))
      else Inl IndexError)"

definition py_get :: "'a list \<Rightarrow> int \<Rightarrow> error + 'a" where
  "py_get xs i = (case py_index (length xs) i of Inl e \<Rightarrow> Inl e | Inr j \<Rightarrow> Inr (xs ! j))"

text \<open>\<^verbatim>\<open>xs[i] = v\<close>\<close>

definition py_set :: "'a list \<Rightarrow> int \<Rightarrow> 'a \<Rightarrow> error + 'a list" where
  "py_set xs i v = (case py_index (length xs) i of Inl e \<Rightarrow> Inl e | Inr j \<Rightarrow> Inr (xs[j := v]))"

text \<open>
  A slice bound never raises: a negative bound counts from the end, and the result is
  clamped to \<open>0 .. len\<close>. \<^verbatim>\<open>xs[i:]\<close> is \<open>py_from\<close>, \<^verbatim>\<open>xs[:i]\<close> is \<open>py_upto\<close>, and
  \<^verbatim>\<open>xs.insert(i, v)\<close> places \<open>v\<close> at the clamped position.
\<close>

definition py_bound :: "nat \<Rightarrow> int \<Rightarrow> nat" where
  "py_bound len i = (if i < 0 then nat (max 0 (int len + i)) else min len (nat i))"

definition py_from :: "'a list \<Rightarrow> int \<Rightarrow> 'a list" where
  "py_from xs i = drop (py_bound (length xs) i) xs"

definition py_upto :: "'a list \<Rightarrow> int \<Rightarrow> 'a list" where
  "py_upto xs i = take (py_bound (length xs) i) xs"

definition py_insert :: "'a list \<Rightarrow> int \<Rightarrow> 'a \<Rightarrow> 'a list" where
  "py_insert xs i v = take (py_bound (length xs) i) xs @ v # drop (py_bound (length xs) i) xs"

section \<open>BTreeNode and BTree\<close>

text \<open>
  \<^verbatim>\<open>BTreeNode\<close> has the fields \<^verbatim>\<open>t\<close>, \<^verbatim>\<open>is_leaf\<close>, \<^verbatim>\<open>keys\<close>, \<^verbatim>\<open>children\<close> and \<^verbatim>\<open>n_keys\<close>;
  \<^verbatim>\<open>n_keys\<close> is a counter kept beside the list, so it is a field of its own here too.
  Every node is referenced from exactly one place (its parent's \<^verbatim>\<open>children\<close> list, or
  \<^verbatim>\<open>BTree.root\<close>), so the object graph is a tree and a mutation of a node is the
  replacement of that node in its parent.
\<close>

datatype BTreeNode =
  BTreeNode (node_t: int) (is_leaf: bool) (keys: "int list") (children: "BTreeNode list")
    (n_keys: int)

text \<open>\<^verbatim>\<open>BTreeNode.__init__(t, is_leaf)\<close>\<close>

definition BTreeNode_init :: "int \<Rightarrow> bool \<Rightarrow> BTreeNode" where
  "BTreeNode_init T leaf = BTreeNode T leaf [] [] 0"

record BTree =
  tree_t :: int
  tree_root :: BTreeNode

text \<open>\<^verbatim>\<open>BTree.__init__(t)\<close>: the root starts as an empty leaf.\<close>

definition BTree_init :: "int \<Rightarrow> BTree" where
  "BTree_init T = \<lparr>tree_t = T, tree_root = BTreeNode_init T True\<rparr>"

lemma size_child: "c \<in> set (children node) \<Longrightarrow> size c < size node"
  by (cases node) (auto simp: less_Suc_eq_le intro: size_list_estimation')

lemma py_index_less: "py_index len i = Inr j \<Longrightarrow> j < len"
  by (auto simp: py_index_def split: if_splits)

section \<open>Search\<close>

text \<open>
  The scan of \<^verbatim>\<open>_search_recursive\<close>:
  \<^verbatim>\<open>while i < node.n_keys and key > node.keys[i]: i += 1\<close>
\<close>

function search_scan :: "BTreeNode \<Rightarrow> int \<Rightarrow> int \<Rightarrow> error + int" where
  "search_scan node key i =
     (if i < n_keys node then
        (case py_get (keys node) i of
           Inl e \<Rightarrow> Inl e
         | Inr k \<Rightarrow> if key > k then search_scan node key (i + 1) else Inr i)
      else Inr i)"
  by pat_completeness auto
termination
  by (relation "measure (\<lambda>(node, key, i). nat (n_keys node - i))") auto

declare search_scan.simps [simp del]

text \<open>The test \<^verbatim>\<open>i < node.n_keys and key == node.keys[i]\<close>.\<close>

definition key_at :: "BTreeNode \<Rightarrow> int \<Rightarrow> int \<Rightarrow> error + bool" where
  "key_at node key i =
     (if i < n_keys node then
        (case py_get (keys node) i of Inl e \<Rightarrow> Inl e | Inr k \<Rightarrow> Inr (key = k))
      else Inr False)"

text \<open>
  \<^verbatim>\<open>_search_recursive(node, key)\<close>. The result \<open>Some (node, i)\<close> is the pair
  \<^verbatim>\<open>(node, i)\<close>; \<open>None\<close> is the pair \<^verbatim>\<open>(None, None)\<close> returned for a miss.
\<close>

function search_recursive :: "BTreeNode \<Rightarrow> int \<Rightarrow> error + (BTreeNode \<times> int) option" where
  "search_recursive node key =
     (case search_scan node key 0 of
        Inl e \<Rightarrow> Inl e
      | Inr i \<Rightarrow>
          (case key_at node key i of
             Inl e \<Rightarrow> Inl e
           | Inr True \<Rightarrow> Inr (Some (node, i))
           | Inr False \<Rightarrow>
               if is_leaf node then Inr None
               else
                 (case py_index (length (children node)) i of
                    Inl e \<Rightarrow> Inl e
                  | Inr j \<Rightarrow> search_recursive (children node ! j) key)))"
  by pat_completeness auto
termination
  by (relation "measure (\<lambda>(node, key). size node)")
    (auto intro!: size_child nth_mem dest: py_index_less)

declare search_recursive.simps [simp del]

text \<open>\<^verbatim>\<open>BTree.search(key)\<close>\<close>

definition BTree_search :: "BTree \<Rightarrow> int \<Rightarrow> error + (BTreeNode \<times> int) option" where
  "BTree_search tr key = search_recursive (tree_root tr) key"

section \<open>Insertion\<close>

text \<open>
  The leaf branch of \<^verbatim>\<open>_insert_non_full\<close> appends \<^verbatim>\<open>None\<close> to \<^verbatim>\<open>node.keys\<close> and shifts
  the larger keys one place to the right. While the loop runs the list holds integers and
  the placeholder, so the loop works on an \<^typ>\<open>int option list\<close>, \<open>None\<close> being the
  placeholder; comparing \<^verbatim>\<open>key\<close> with it raises \<^verbatim>\<open>TypeError\<close>.
  \<^verbatim>\<open>while i >= 0 and key < node.keys[i]: node.keys[i + 1] = node.keys[i]; i -= 1\<close>
\<close>

function leaf_shift :: "int option list \<Rightarrow> int \<Rightarrow> int \<Rightarrow> error + (int option list \<times> int)" where
  "leaf_shift ks key i =
     (if i \<ge> 0 then
        (case py_get ks i of
           Inl e \<Rightarrow> Inl e
         | Inr None \<Rightarrow> Inl TypeError
         | Inr (Some k) \<Rightarrow>
             if key < k then
               (case py_set ks (i + 1) (Some k) of
                  Inl e \<Rightarrow> Inl e
                | Inr ks' \<Rightarrow> leaf_shift ks' key (i - 1))
             else Inr (ks, i))
      else Inr (ks, i))"
  by pat_completeness auto
termination
  by (relation "measure (\<lambda>(ks, key, i). nat (i + 1))") auto

declare leaf_shift.simps [simp del]

text \<open>
  The whole leaf branch: append the placeholder, shift, store \<^verbatim>\<open>key\<close> at \<^verbatim>\<open>i + 1\<close>, count
  it. The key lists of the model hold integers only: a placeholder that is still in the
  list at the end (possible only when the node came in with \<^verbatim>\<open>n_keys < len(keys)\<close>) is
  reported at once as the \<^verbatim>\<open>TypeError\<close> that Python raises at the first later comparison
  with it.
\<close>

definition insert_leaf :: "BTreeNode \<Rightarrow> int \<Rightarrow> error + BTreeNode" where
  "insert_leaf node key =
     (case leaf_shift (map Some (keys node) @ [None]) key (n_keys node - 1) of
        Inl e \<Rightarrow> Inl e
      | Inr (ks, i) \<Rightarrow>
          (case py_set ks (i + 1) (Some key) of
             Inl e \<Rightarrow> Inl e
           | Inr ks' \<Rightarrow>
               (case those ks' of
                  None \<Rightarrow> Inl TypeError
                | Some ks'' \<Rightarrow>
                    Inr (BTreeNode (node_t node) (is_leaf node) ks'' (children node)
                          (n_keys node + 1)))))"

text \<open>
  The internal branch first walks left over the larger keys:
  \<^verbatim>\<open>while i >= 0 and key < node.keys[i]: i -= 1\<close>
\<close>

function descend_scan :: "int list \<Rightarrow> int \<Rightarrow> int \<Rightarrow> error + int" where
  "descend_scan ks key i =
     (if i \<ge> 0 then
        (case py_get ks i of
           Inl e \<Rightarrow> Inl e
         | Inr k \<Rightarrow> if key < k then descend_scan ks key (i - 1) else Inr i)
      else Inr i)"
  by pat_completeness auto
termination
  by (relation "measure (\<lambda>(ks, key, i). nat (i + 1))") auto

declare descend_scan.simps [simp del]

text \<open>
  \<^verbatim>\<open>_split_child(parent_node, i)\<close> with \<^verbatim>\<open>self.t = T\<close>. The full child is changed in
  place, at the position \<^verbatim>\<open>parent_node.children[i]\<close> was read from; the new sibling gets
  slices (copies) of its lists.
\<close>

definition split_child :: "int \<Rightarrow> BTreeNode \<Rightarrow> int \<Rightarrow> error + BTreeNode" where
  "split_child T parent_node i =
     (case py_index (length (children parent_node)) i of
        Inl e \<Rightarrow> Inl e
      | Inr j \<Rightarrow>
          (let full_child = children parent_node ! j;
               new_child = BTreeNode_init T (is_leaf full_child)
           in case py_get (keys full_child) (T - 1) of
                Inl e \<Rightarrow> Inl e
              | Inr median_key \<Rightarrow>
                  (let new_keys = py_from (keys full_child) T;
                       full_keys = py_upto (keys full_child) (T - 1);
                       new_children =
                         (if \<not> is_leaf full_child then py_from (children full_child) T
                          else children new_child);
                       full_children =
                         (if \<not> is_leaf full_child then py_upto (children full_child) T
                          else children full_child);
                       full_child' =
                         BTreeNode (node_t full_child) (is_leaf full_child) full_keys
                           full_children (T - 1);
                       new_child' =
                         BTreeNode (node_t new_child) (is_leaf new_child) new_keys
                           new_children (T - 1)
                   in Inr (BTreeNode (node_t parent_node) (is_leaf parent_node)
                            (py_insert (keys parent_node) i median_key)
                            (py_insert ((children parent_node)[j := full_child']) (i + 1)
                               new_child')
                            (n_keys parent_node + 1)))))"

text \<open>
  The internal branch of \<^verbatim>\<open>_insert_non_full\<close> up to the recursive call: the child index,
  the split of a full child and the choice between the two halves. The result is the node
  as it stands before the recursive call and the index \<^verbatim>\<open>i\<close> of the child to descend into.
\<close>

definition choose_child :: "int \<Rightarrow> BTreeNode \<Rightarrow> int \<Rightarrow> error + (BTreeNode \<times> int)" where
  "choose_child T node key =
     (case descend_scan (keys node) key (n_keys node - 1) of
        Inl e \<Rightarrow> Inl e
      | Inr i0 \<Rightarrow>
          (let i = i0 + 1
           in case py_get (children node) i of
                Inl e \<Rightarrow> Inl e
              | Inr c \<Rightarrow>
                  if n_keys c = 2 * T - 1 then
                    (case split_child T node i of
                       Inl e \<Rightarrow> Inl e
                     | Inr node' \<Rightarrow>
                         (case py_get (keys node') i of
                            Inl e \<Rightarrow> Inl e
                          | Inr k \<Rightarrow> Inr (node', if key > k then i + 1 else i)))
                  else Inr (node, i)))"

lemma size_take_le: "size_list f (take n xs) \<le> size_list f xs"
  by (induction xs arbitrary: n) (auto simp: take_Cons split: nat.splits intro: le_SucI)

lemma size_drop_le: "size_list f (drop n xs) \<le> size_list f xs"
  by (induction xs arbitrary: n) (auto simp: drop_Cons split: nat.splits intro: le_SucI trans_le_add2)

lemma split_child_size:
  assumes "split_child T p i = Inr p'" and "c \<in> set (children p')"
  shows "size c < size p"
proof -
  from assms(1) obtain j m where j: "py_index (length (children p)) i = Inr j"
    and m: "py_get (keys (children p ! j)) (T - 1) = Inr m"
    by (auto simp: split_child_def Let_def split: sum.splits)
  define fc where "fc = children p ! j"
  have jl: "j < length (children p)" using j by (rule py_index_less)
  then have fcp: "size fc < size p" unfolding fc_def by (intro size_child nth_mem)
  define L where "L = BTreeNode (node_t fc) (is_leaf fc) (py_upto (keys fc) (T - 1))
    (if \<not> is_leaf fc then py_upto (children fc) T else children fc) (T - 1)"
  define R where "R = BTreeNode T (is_leaf fc) (py_from (keys fc) T)
    (if \<not> is_leaf fc then py_from (children fc) T else []) (T - 1)"
  have cs: "children p' = py_insert ((children p)[j := L]) (i + 1) R"
    using assms(1) j m by (auto simp add: split_child_def Let_def fc_def L_def R_def BTreeNode_init_def)
  have sL: "size L \<le> size fc"
    by (cases fc) (simp add: L_def py_upto_def size_take_le)
  have sR: "size R \<le> size fc"
    by (cases fc) (simp add: R_def py_from_def size_drop_le)
  from assms(2) have "c = R \<or> c \<in> set ((children p)[j := L])"
    unfolding cs py_insert_def by (auto dest: in_set_takeD in_set_dropD)
  then have "c = R \<or> c = L \<or> c \<in> set (children p)"
    using set_update_subset_insert[of "children p" j L] by auto
  then show ?thesis using sL sR fcp by (auto dest: size_child)
qed

lemma choose_child_size:
  assumes "choose_child T node key = Inr (node', i)" and "c \<in> set (children node')"
  shows "size c < size node"
proof (cases "node' = node")
  case True
  with assms(2) show ?thesis by (simp add: size_child)
next
  case False
  with assms(1) obtain i' where "split_child T node i' = Inr node'"
    by (auto simp: choose_child_def Let_def split: sum.splits if_splits)
  then show ?thesis using assms(2) by (rule split_child_size)
qed

text \<open>
  \<^verbatim>\<open>_insert_non_full(node, key)\<close> with \<^verbatim>\<open>self.t = T\<close>. The recursive call changes the child
  in place; here the changed child is put back at the position it was read from.
\<close>

function insert_non_full :: "int \<Rightarrow> BTreeNode \<Rightarrow> int \<Rightarrow> error + BTreeNode" where
  "insert_non_full T node key =
     (if is_leaf node then insert_leaf node key
      else
        (case choose_child T node key of
           Inl e \<Rightarrow> Inl e
         | Inr (node', i) \<Rightarrow>
             (case py_index (length (children node')) i of
                Inl e \<Rightarrow> Inl e
              | Inr j \<Rightarrow>
                  (case insert_non_full T (children node' ! j) key of
                     Inl e \<Rightarrow> Inl e
                   | Inr c \<Rightarrow>
                       Inr (BTreeNode (node_t node') (is_leaf node') (keys node')
                             ((children node')[j := c]) (n_keys node'))))))"
  by pat_completeness auto
termination
proof (relation "measure (\<lambda>(T, node, key). size node)")
  fix T node key x node' i j
  assume "choose_child T node key = Inr x" and "(node', i) = x"
    and "py_index (length (children node')) i = Inr j"
  then have "choose_child T node key = Inr (node', i)" and "children node' ! j \<in> set (children node')"
    by (auto dest: py_index_less)
  then have "size (children node' ! j) < size node" by (rule choose_child_size)
  then show "((T, children node' ! j, key), T, node, key) \<in> measure (\<lambda>(T, node, key). size node)"
    by simp
qed simp

declare insert_non_full.simps [simp del]

text \<open>
  \<^verbatim>\<open>BTree.insert(key)\<close>: a full root is first put under a new internal root and split.
\<close>

definition BTree_insert :: "BTree \<Rightarrow> int \<Rightarrow> error + BTree" where
  "BTree_insert tr key =
     (let root_node = tree_root tr
      in if n_keys root_node = 2 * tree_t tr - 1 then
           (let s0 = BTreeNode_init (tree_t tr) False;
                s = BTreeNode (node_t s0) (is_leaf s0) (keys s0)
                      (py_insert (children s0) 0 root_node) (n_keys s0)
            in case split_child (tree_t tr) s 0 of
                 Inl e \<Rightarrow> Inl e
               | Inr s' \<Rightarrow>
                   (case insert_non_full (tree_t tr) s' key of
                      Inl e \<Rightarrow> Inl e
                    | Inr s'' \<Rightarrow> Inr (tr\<lparr>tree_root := s''\<rparr>)))
         else
           (case insert_non_full (tree_t tr) root_node key of
              Inl e \<Rightarrow> Inl e
            | Inr r \<Rightarrow> Inr (tr\<lparr>tree_root := r\<rparr>)))"

text \<open>
  The way a tree is built in the notebook: \<^verbatim>\<open>for key in keys_to_insert: b_tree.insert(key)\<close>.
  The first exception ends the loop.
\<close>

fun insert_all :: "BTree \<Rightarrow> int list \<Rightarrow> error + BTree" where
  "insert_all tr [] = Inr tr"
| "insert_all tr (key # rest) =
     (case BTree_insert tr key of Inl e \<Rightarrow> Inl e | Inr tr' \<Rightarrow> insert_all tr' rest)"

section \<open>The Recursive Model Index\<close>

text \<open>
  Modelled from the spec: the classes \<^verbatim>\<open>LinearModel\<close> and \<^verbatim>\<open>RMIModel\<close> (\<^verbatim>\<open>rmi/rmi_model.py\<close> in
  the repository's layout) are missing from the sources, so the definitions of this
  section follow section 4.3 of the specification. A \<^verbatim>\<open>LinearModel\<close> is two floats and
  enters \<^verbatim>\<open>predict\<close> and \<^verbatim>\<open>search\<close> only through \<^verbatim>\<open>round(model.predict(key))\<close>; its place is
  taken here by that integer-valued function of the key, and nothing is assumed of it. A
  leaf is such a function and its \<^verbatim>\<open>max_error\<close>, a non-negative integer. The model also
  keeps the sorted array it was built from, which \<^verbatim>\<open>search\<close> reads. The overflow buffer of
  \<^verbatim>\<open>insert\<close> is empty in a model as \<^verbatim>\<open>build\<close> returns it and is left out.
\<close>

record Leaf =
  leaf_model :: "int \<Rightarrow> int"
  max_error :: nat

record RMIModel =
  sorted_keys :: "int list"
  stage0 :: "int \<Rightarrow> int"
  leaves :: "Leaf list"

text \<open>Modelled from the spec: \<^verbatim>\<open>clip(x, lo, hi)\<close>.\<close>

definition clip :: "int \<Rightarrow> int \<Rightarrow> int \<Rightarrow> int" where
  "clip x lo hi = max lo (min hi x)"

text \<open>
  Modelled from the spec: the leaf that step 1 of \<^verbatim>\<open>predict\<close> selects,
  \<^verbatim>\<open>leaves[clip(round(stage0.predict(key)), 0, leaves.length - 1)]\<close>.
\<close>

definition selected_leaf :: "RMIModel \<Rightarrow> int \<Rightarrow> Leaf" where
  "selected_leaf m key = leaves m ! nat (clip (stage0 m key) 0 (int (length (leaves m)) - 1))"

text \<open>
  Modelled from the spec: \<^verbatim>\<open>predict(key) -> (approx_position, bound)\<close>, the selected leaf's
  rounded prediction clipped to the valid array indices, and its \<^verbatim>\<open>max_error\<close>.
\<close>

definition RMIModel_predict :: "RMIModel \<Rightarrow> int \<Rightarrow> int \<times> int" where
  "RMIModel_predict m key =
     (let lf = selected_leaf m key
      in (clip (leaf_model lf key) 0 (int (length (sorted_keys m)) - 1), int (max_error lf)))"

text \<open>
  Modelled from the spec: the binary search of the positions \<open>lo .. hi\<close> (both included)
  of a sorted array for a key.
\<close>

function binary_search :: "int list \<Rightarrow> int \<Rightarrow> int \<Rightarrow> int \<Rightarrow> nat option" where
  "binary_search a key lo hi =
     (if hi < lo then None
      else
        (let mid = (lo + hi) div 2
         in if a ! nat mid = key then Some (nat mid)
            else if a ! nat mid < key then binary_search a key (mid + 1) hi
            else binary_search a key lo (mid - 1)))"
  by pat_completeness auto
termination
  by (relation "measure (\<lambda>(a, key, lo, hi). nat (hi - lo + 1))") auto

declare binary_search.simps [simp del]

text \<open>
  Modelled from the spec: \<^verbatim>\<open>search(key) -> index | NotFound\<close>. The window
  \<open>[max(0, approx - bound), min(n - 1, approx + bound)]\<close> is searched first; when it holds no
  match the whole array is searched and the event counts as a fallback. The result is the
  index or \<open>None\<close> for \<^verbatim>\<open>NotFound\<close>, together with whether the fallback ran.
\<close>

definition RMIModel_search :: "RMIModel \<Rightarrow> int \<Rightarrow> nat option \<times> bool" where
  "RMIModel_search m key =
     (let (approx_position, bound) = RMIModel_predict m key;
          n = int (length (sorted_keys m));
          lo = max 0 (approx_position - bound);
          hi = min (n - 1) (approx_position + bound)
      in case binary_search (sorted_keys m) key lo hi of
           Some i \<Rightarrow> (Some i, False)
         | None \<Rightarrow> (binary_search (sorted_keys m) key 0 (n - 1), True))"

section \<open>The bookkeeping invariant and the nodes a split makes\<close>

text \<open>
  In every node \<^verbatim>\<open>n_keys\<close> is the length of \<^verbatim>\<open>keys\<close>; an internal node has one child more
  than keys, a leaf has none.
\<close>

fun bookkeeping :: "BTreeNode \<Rightarrow> bool" where
  "bookkeeping (BTreeNode t leaf ks cs n) =
     (n = int (length ks) \<and>
      (if leaf then length cs = 0 else int (length cs) = n + 1) \<and>
      (\<forall>c\<in>set cs. bookkeeping c))"

text \<open>The two halves \<^verbatim>\<open>_split_child\<close> makes of a child with \<open>2 * m + 1\<close> keys, \<open>m = t - 1\<close>.\<close>

definition left_half :: "nat \<Rightarrow> BTreeNode \<Rightarrow> BTreeNode" where
  "left_half m c =
     BTreeNode (node_t c) (is_leaf c) (take m (keys c))
       (if is_leaf c then children c else take (Suc m) (children c)) (int m)"

definition right_half :: "int \<Rightarrow> nat \<Rightarrow> BTreeNode \<Rightarrow> BTreeNode" where
  "right_half T m c =
     BTreeNode T (is_leaf c) (drop (Suc m) (keys c))
       (if is_leaf c then [] else drop (Suc m) (children c)) (int m)"

definition split_node :: "int \<Rightarrow> nat \<Rightarrow> nat \<Rightarrow> BTreeNode \<Rightarrow> BTreeNode" where
  "split_node T m j p =
     BTreeNode (node_t p) (is_leaf p)
       (take j (keys p) @ keys (children p ! j) ! m # drop j (keys p))
       (take j (children p) @ left_half m (children p ! j) # right_half T m (children p ! j) #
          drop (Suc j) (children p))
       (n_keys p + 1)"

text \<open>The node after the recursive call of \<^verbatim>\<open>_insert_non_full\<close> has changed child \<open>j\<close>.\<close>

definition with_child :: "BTreeNode \<Rightarrow> nat \<Rightarrow> BTreeNode \<Rightarrow> BTreeNode" where
  "with_child p j c =
     BTreeNode (node_t p) (is_leaf p) (keys p) ((children p)[j := c]) (n_keys p)"

text \<open>The root \<^verbatim>\<open>BTree.insert\<close> builds over a full root before it descends.\<close>

definition split_root :: "int \<Rightarrow> nat \<Rightarrow> BTreeNode \<Rightarrow> BTreeNode" where
  "split_root T m r = BTreeNode T False [keys r ! m] [left_half m r, right_half T m r] 1"

section \<open>Search as the specification describes it\<close>

text \<open>
  Search as the specification words it: at a node take the first position whose key is
  \<open>\<ge>\<close> the target (the number of keys before it that are smaller); a key equal to the
  target there is the match; otherwise a leaf gives the miss, and an internal node hands
  the search to the child at that position. The child exists in every node that has one
  child more than keys; the definition answers the miss where it does not.
\<close>

function search_spec :: "BTreeNode \<Rightarrow> int \<Rightarrow> (BTreeNode \<times> int) option" where
  "search_spec (BTreeNode t leaf ks cs n) key =
     (let i = length (takeWhile (\<lambda>k. k < key) ks)
      in if i < length ks \<and> ks ! i = key then Some (BTreeNode t leaf ks cs n, int i)
         else if leaf then None
         else if i < length cs then search_spec (cs ! i) key
         else None)"
  by pat_completeness auto
termination
  by (relation "measure (\<lambda>(node, key). size node)")
    (auto simp: less_Suc_eq_le intro!: size_list_estimation'[OF nth_mem])

section \<open>Depth of the leaves\<close>

text \<open>
  The depth, counted from the node, of every leaf below a node, left to right; the height
  of a tree is the largest of them.
\<close>

fun leaf_depths :: "BTreeNode \<Rightarrow> nat list" where
  "leaf_depths (BTreeNode t leaf ks cs n) =
     (if leaf then [0] else map Suc (concat (map leaf_depths cs)))"

definition height :: "BTreeNode \<Rightarrow> nat" where
  "height node = fold max (leaf_depths node) 0"

section \<open>Key counts\<close>

text \<open>
  \<open>within_order T\<close> holds of a node that is not the root when it and every node below it
  has between \<open>T - 1\<close> and \<open>2T - 1\<close> keys, \<open>k + 1\<close> children for its \<open>k\<close> keys when it is
  internal and no child when it is a leaf. \<open>root_order T\<close> asks of the root the children
  count only, and \<open>within_order T\<close> of every child.
\<close>

fun within_order :: "int \<Rightarrow> BTreeNode \<Rightarrow> bool" where
  "within_order T (BTreeNode t leaf ks cs n) =
     (T - 1 \<le> int (length ks) \<and> int (length ks) \<le> 2 * T - 1 \<and>
      (if leaf then length cs = 0 else length cs = length ks + 1) \<and>
      (\<forall>c\<in>set cs. within_order T c))"

fun root_order :: "int \<Rightarrow> BTreeNode \<Rightarrow> bool" where
  "root_order T (BTreeNode t leaf ks cs n) =
     ((if leaf then length cs = 0 else length cs = length ks + 1) \<and>
      (\<forall>c\<in>set cs. within_order T c))"

section \<open>In-order traversal\<close>

text \<open>
  The notebook has no traversal; this is the usual one, which the claims about order
  speak of: a leaf lists its keys, an internal node lists child 0, key 0, child 1, key 1
  and so on, ending with the last child. \<open>interleave\<close> merges the children's lists with
  the keys and drops nothing when the two lengths do not fit.
\<close>

fun interleave :: "'a list list \<Rightarrow> 'a list \<Rightarrow> 'a list" where
  "interleave [] ks = ks"
| "interleave (x # xs) [] = x @ concat xs"
| "interleave (x # xs) (k # ks) = x @ k # interleave xs ks"

fun inorder :: "BTreeNode \<Rightarrow> int list" where
  "inorder (BTreeNode t leaf ks cs n) =
     (if leaf then ks else interleave (map inorder cs) ks)"

text \<open>The part of a traversal before a child, and the part after it.\<close>

definition before_child :: "'a list list \<Rightarrow> 'a list \<Rightarrow> 'a list" where
  "before_child xs ks = concat (map2 (\<lambda>x k. x @ [k]) xs ks)"

definition after_child :: "'a list \<Rightarrow> 'a list list \<Rightarrow> 'a list" where
  "after_child ks xs = (case ks of [] \<Rightarrow> concat xs | k # ks' \<Rightarrow> k # interleave xs ks')"

section \<open>Order between a node's keys and its subtrees\<close>

text \<open>
  The ordering as the specification states it: in every internal node with keys \<open>ks\<close>,
  every key stored under \<open>children[i]\<close> is \<open>\<le> ks[i - 1]\<close> when \<open>i > 0\<close> and \<open>< ks[i]\<close> when
  \<open>i < k\<close>. The keys stored under a node are the keys of its traversal.
\<close>

fun stated_child_order :: "BTreeNode \<Rightarrow> bool" where
  "stated_child_order (BTreeNode t leaf ks cs n) =
     (leaf \<or>
      ((\<forall>i\<in>{..<length cs}. \<forall>x\<in>set (inorder (cs ! i)).
          (0 < i \<longrightarrow> x \<le> ks ! (i - 1)) \<and> (i < length ks \<longrightarrow> x < ks ! i)) \<and>
       (\<forall>c\<in>set cs. stated_child_order c)))"

text \<open>
  The ordering the tree has: every key stored under \<open>children[i]\<close> lies strictly between
  its two neighbours, above \<open>ks[i - 1]\<close> when \<open>i > 0\<close> and below \<open>ks[i]\<close> when \<open>i < k\<close>.
\<close>

fun child_order :: "BTreeNode \<Rightarrow> bool" where
  "child_order (BTreeNode t leaf ks cs n) =
     (leaf \<or>
      ((\<forall>i\<in>{..<length cs}. \<forall>x\<in>set (inorder (cs ! i)).
          (0 < i \<longrightarrow> ks ! (i - 1) < x) \<and> (i < length ks \<longrightarrow> x < ks ! i)) \<and>
       (\<forall>c\<in>set cs. child_order c)))"

section \<open>The place of the inserted key\<close>





section \<open>Python lists at natural-number positions\<close>

lemma py_index_nat: "j < len \<Longrightarrow> py_index len (int j) = Inr j"
  by (simp add: py_index_def)

lemma py_get_nat: "j < length xs \<Longrightarrow> py_get xs (int j) = Inr (xs ! j)"
  by (simp add: py_get_def py_index_nat)

lemma py_set_nat: "j < length xs \<Longrightarrow> py_set xs (int j) v = Inr (xs[j := v])"
  by (simp add: py_set_def py_index_nat)

lemma py_bound_nat: "py_bound len (int j) = min len j"
  by (simp add: py_bound_def)

lemma py_from_nat: "py_from xs (int j) = drop j xs"
  by (simp add: py_from_def py_bound_nat min_def)

lemma py_upto_nat: "py_upto xs (int j) = take j xs"
  by (simp add: py_upto_def py_bound_nat min_def)

lemma py_insert_nat: "py_insert xs (int j) v = take j xs @ v # drop j xs"
  by (simp add: py_insert_def py_bound_nat min_def)

section \<open>The loops\<close>

lemma search_scan_spec:
  assumes "n_keys node = int (length (keys node))" and "i \<le> length (keys node)"
  shows "search_scan node key (int i) =
           Inr (int (i + length (takeWhile (\<lambda>k. k < key) (drop i (keys node)))))"
  using assms(2)
proof (induction "length (keys node) - i" arbitrary: i)
  case 0
  then show ?case using assms(1) by (subst search_scan.simps) simp
next
  case (Suc d)
  then have il: "i < length (keys node)" by simp
  then have dr: "drop i (keys node) = keys node ! i # drop (Suc i) (keys node)"
    by (simp add: Cons_nth_drop_Suc)
  have "search_scan node key (int (Suc i)) =
      Inr (int (Suc i + length (takeWhile (\<lambda>k. k < key) (drop (Suc i) (keys node)))))"
    using Suc by (intro Suc.hyps(1)) auto
  then have ih: "search_scan node key (int i + 1) =
      Inr (int i + 1 + int (length (takeWhile (\<lambda>k. k < key) (drop (Suc i) (keys node)))))"
    by (simp add: add.commute)
  show ?case
    using il assms(1) ih by (subst search_scan.simps) (simp add: py_get_nat dr)
qed

lemma descend_scan_spec:
  assumes "i \<le> length ks"
  shows "\<exists>j\<le>i. descend_scan ks key (int i - 1) = Inr (int j - 1) \<and>
           (0 < j \<longrightarrow> ks ! (j - 1) \<le> key) \<and> (\<forall>j'. j \<le> j' \<and> j' < i \<longrightarrow> key < ks ! j')"
  using assms
proof (induction i)
  case 0
  then show ?case by (subst descend_scan.simps) simp
next
  case (Suc i)
  then obtain j where j: "j \<le> i" "descend_scan ks key (int i - 1) = Inr (int j - 1)"
    "0 < j \<longrightarrow> ks ! (j - 1) \<le> key" "\<forall>j'. j \<le> j' \<and> j' < i \<longrightarrow> key < ks ! j'"
    by auto
  have g: "py_get ks (int i) = Inr (ks ! i)" using Suc.prems by (simp add: py_get_nat)
  show ?case
  proof (cases "key < ks ! i")
    case True
    then have "descend_scan ks key (int (Suc i) - 1) = Inr (int j - 1)"
      using g j(2) by (subst descend_scan.simps) simp
    moreover have "\<forall>j'. j \<le> j' \<and> j' < Suc i \<longrightarrow> key < ks ! j'"
      using j(4) True by (auto simp: less_Suc_eq)
    ultimately show ?thesis using j(1,3) by (intro exI[of _ j]) simp
  next
    case False
    then have "descend_scan ks key (int (Suc i) - 1) = Inr (int (Suc i) - 1)"
      using g by (subst descend_scan.simps) simp
    then show ?thesis using False by (intro exI[of _ "Suc i"]) simp
  qed
qed

lemma leaf_shift_spec:
  assumes "i \<le> length ks"
  shows "\<exists>j\<le>i. \<exists>y. leaf_shift (map Some (take i ks) @ x # map Some (drop i ks)) key (int i - 1) =
             Inr (map Some (take j ks) @ y # map Some (drop j ks), int j - 1) \<and>
           (0 < j \<longrightarrow> ks ! (j - 1) \<le> key) \<and> (\<forall>j'. j \<le> j' \<and> j' < i \<longrightarrow> key < ks ! j')"
  using assms
proof (induction i arbitrary: x)
  case 0
  then show ?case by (subst leaf_shift.simps) auto
next
  case (Suc i)
  let ?L = "map Some (take (Suc i) ks) @ x # map Some (drop (Suc i) ks)"
  have il: "i < length ks" using Suc.prems by simp
  have len: "length ?L = Suc (length ks)" using il by simp
  have nth: "?L ! i = Some (ks ! i)" using il by (simp add: nth_append)
  have g: "py_get ?L (int i) = Inr (Some (ks ! i))"
    using il nth len by (simp add: py_get_nat del: nth_append length_append)
  show ?case
  proof (cases "key < ks ! i")
    case True
    have "?L[Suc i := Some (ks ! i)] = map Some (take (Suc i) ks) @ Some (ks ! i) # map Some (drop (Suc i) ks)"
      using il by (simp add: list_update_append)
    also have "\<dots> = map Some (take i ks) @ Some (ks ! i) # map Some (drop i ks)"
      using il by (simp add: take_Suc_conv_app_nth Cons_nth_drop_Suc[symmetric])
    finally have upd: "py_set ?L (int i + 1) (Some (ks ! i)) =
        Inr (map Some (take i ks) @ Some (ks ! i) # map Some (drop i ks))"
      using py_set_nat[of "Suc i" ?L "Some (ks ! i)"] il len
      by (simp add: add.commute del: length_append)
    from Suc.IH[of "Some (ks ! i)"] il obtain j y where j: "j \<le> i"
      "leaf_shift (map Some (take i ks) @ Some (ks ! i) # map Some (drop i ks)) key (int i - 1) =
         Inr (map Some (take j ks) @ y # map Some (drop j ks), int j - 1)"
      "0 < j \<longrightarrow> ks ! (j - 1) \<le> key" "\<forall>j'. j \<le> j' \<and> j' < i \<longrightarrow> key < ks ! j'"
      by auto
    have "leaf_shift ?L key (int (Suc i) - 1) =
        Inr (map Some (take j ks) @ y # map Some (drop j ks), int j - 1)"
      using g upd j(2) True by (subst leaf_shift.simps) simp
    moreover have "\<forall>j'. j \<le> j' \<and> j' < Suc i \<longrightarrow> key < ks ! j'"
      using j(4) True by (auto simp: less_Suc_eq)
    ultimately show ?thesis using j(1,3) by (intro exI[of _ j] conjI exI[of _ y]) auto
  next
    case False
    have "leaf_shift ?L key (int (Suc i) - 1) = Inr (?L, int (Suc i) - 1)"
      using g False by (subst leaf_shift.simps) simp
    then show ?thesis using False by (intro exI[of _ "Suc i"] conjI exI[of _ x]) auto
  qed
qed

lemma those_map_Some: "those (map Some xs) = Some xs"
  by (induction xs) auto

lemma insert_leaf_spec:
  assumes "n_keys node = int (length (keys node))"
  shows "\<exists>pre suf. keys node = pre @ suf \<and> (\<forall>x\<in>set suf. key < x) \<and>
           (pre \<noteq> [] \<longrightarrow> last pre \<le> key) \<and>
           insert_leaf node key =
             Inr (BTreeNode (node_t node) (is_leaf node) (pre @ key # suf) (children node)
                   (n_keys node + 1))"
proof -
  let ?ks = "keys node"
  from leaf_shift_spec[of "length ?ks" ?ks None key] obtain j y where j: "j \<le> length ?ks"
    "leaf_shift (map Some ?ks @ [None]) key (int (length ?ks) - 1) =
       Inr (map Some (take j ?ks) @ y # map Some (drop j ?ks), int j - 1)"
    "0 < j \<longrightarrow> ?ks ! (j - 1) \<le> key" "\<forall>j'. j \<le> j' \<and> j' < length ?ks \<longrightarrow> key < ?ks ! j'"
    by auto
  let ?L = "map Some (take j ?ks) @ y # map Some (drop j ?ks)"
  have "?L[j := Some key] = map Some (take j ?ks @ key # drop j ?ks)"
    using j(1) by (simp add: list_update_append)
  moreover have "j < length ?L" using j(1) by simp
  ultimately have set: "py_set ?L (int j - 1 + 1) (Some key) = Inr (map Some (take j ?ks @ key # drop j ?ks))"
    using py_set_nat[of j ?L "Some key"] by simp
  have res: "insert_leaf node key =
      Inr (BTreeNode (node_t node) (is_leaf node) (take j ?ks @ key # drop j ?ks) (children node)
            (n_keys node + 1))"
    unfolding insert_leaf_def assms
    using j(2) set those_map_Some[of "take j ?ks @ key # drop j ?ks"] by simp
  have suf: "\<forall>x\<in>set (drop j ?ks). key < x"
    using j(4) by (auto simp: in_set_conv_nth)
  have pre: "take j ?ks \<noteq> [] \<longrightarrow> last (take j ?ks) \<le> key"
    using j(1,3) by (auto simp: last_conv_nth)
  show ?thesis
    using res suf pre by (intro exI[of _ "take j ?ks"] exI[of _ "drop j ?ks"]) simp
qed

section \<open>The split and the choice of the child\<close>

lemma py_from_Suc: "py_from xs (int j + 1) = drop (Suc j) xs"
  using py_from_nat[of xs "Suc j"] by (simp add: add.commute)

lemma py_upto_Suc: "py_upto xs (int j + 1) = take (Suc j) xs"
  using py_upto_nat[of xs "Suc j"] by (simp add: add.commute)

lemma py_insert_Suc: "py_insert xs (int j + 1) v = take (Suc j) xs @ v # drop (Suc j) xs"
  using py_insert_nat[of xs "Suc j"] by (simp add: add.commute)

lemma split_child_nat:
  assumes "j < length (children p)" and "m < length (keys (children p ! j))"
  shows "split_child (int m + 1) p (int j) = Inr (split_node (int m + 1) m j p)"
proof -
  let ?c = "children p ! j"
  have g: "py_get (keys ?c) (int m) = Inr (keys ?c ! m)"
    using assms(2) by (rule py_get_nat)
  have ins: "take (Suc j) (xs[j := L]) = take j xs @ [L]"
    if "j < length xs" for xs :: "BTreeNode list" and L
    using that by (simp add: upd_conv_take_nth_drop)
  show ?thesis
    by (simp add: split_child_def py_index_nat[OF assms(1)] Let_def g py_insert_Suc
        ins[OF assms(1)] py_insert_nat split_node_def left_half_def right_half_def
        BTreeNode_init_def py_from_Suc py_upto_Suc py_upto_nat)
qed

lemma bookkeeping_sel:
  "bookkeeping node \<longleftrightarrow>
     n_keys node = int (length (keys node)) \<and>
     (if is_leaf node then children node = []
      else length (children node) = Suc (length (keys node))) \<and>
     (\<forall>c\<in>set (children node). bookkeeping c)"
  by (cases node) auto

lemma keys_split_node:
  "keys (split_node T m j p) = take j (keys p) @ keys (children p ! j) ! m # drop j (keys p)"
  by (simp add: split_node_def)

lemma children_split_node:
  "children (split_node T m j p) =
     take j (children p) @ left_half m (children p ! j) # right_half T m (children p ! j) #
       drop (Suc j) (children p)"
  by (simp add: split_node_def)

lemma choose_child_spec:
  assumes nk: "n_keys node = int (length (keys node))"
    and cl: "length (children node) = Suc (length (keys node))"
    and ck: "\<forall>c\<in>set (children node). n_keys c = int (length (keys c))"
  shows "\<exists>j\<le>length (keys node).
           (0 < j \<longrightarrow> keys node ! (j - 1) \<le> key) \<and>
           (\<forall>j'. j \<le> j' \<and> j' < length (keys node) \<longrightarrow> key < keys node ! j') \<and>
           (n_keys (children node ! j) \<noteq> 2 * T - 1 \<longrightarrow>
              choose_child T node key = Inr (node, int j)) \<and>
           (n_keys (children node ! j) = 2 * T - 1 \<longrightarrow>
              (\<exists>m. T = int m + 1 \<and> length (keys (children node ! j)) = 2 * m + 1 \<and>
                 choose_child T node key =
                   Inr (split_node T m j node,
                        int (if key > keys (children node ! j) ! m then Suc j else j))))"
proof -
  from descend_scan_spec[of "length (keys node)" "keys node" key]
  obtain j where j: "j \<le> length (keys node)"
    "descend_scan (keys node) key (int (length (keys node)) - 1) = Inr (int j - 1)"
    "0 < j \<longrightarrow> keys node ! (j - 1) \<le> key"
    "\<forall>j'. j \<le> j' \<and> j' < length (keys node) \<longrightarrow> key < keys node ! j'"
    by auto
  let ?c = "children node ! j"
  have jl: "j < length (children node)" using j(1) cl by simp
  have g: "py_get (children node) (int j) = Inr ?c" using jl by (rule py_get_nat)
  have a: "choose_child T node key = Inr (node, int j)" if "n_keys ?c \<noteq> 2 * T - 1"
    using that j(2) g by (simp add: choose_child_def nk)
  have b: "\<exists>m. T = int m + 1 \<and> length (keys ?c) = 2 * m + 1 \<and>
      choose_child T node key =
        Inr (split_node T m j node, int (if key > keys ?c ! m then Suc j else j))"
    if full: "n_keys ?c = 2 * T - 1"
  proof -
    have "n_keys ?c = int (length (keys ?c))" using ck jl by simp
    with full have len: "int (length (keys ?c)) = 2 * T - 1" by simp
    define m where "m = nat (T - 1)"
    have T: "T = int m + 1" and lk: "length (keys ?c) = 2 * m + 1"
      using len by (auto simp: m_def)
    have sp: "split_child T node (int j) = Inr (split_node T m j node)"
      unfolding T using jl lk by (intro split_child_nat) simp_all
    have "py_get (keys (split_node T m j node)) (int j) = Inr (keys ?c ! m)"
      using j(1) by (subst py_get_nat) (simp_all add: keys_split_node nth_append)
    then have "choose_child T node key =
        Inr (split_node T m j node, int (if key > keys ?c ! m then Suc j else j))"
      using j(2) g full sp by (simp add: choose_child_def nk)
    with T lk show ?thesis by blast
  qed
  show ?thesis
  proof (rule exI[of _ j], intro conjI impI)
    show "j \<le> length (keys node)" by (rule j(1))
    show "keys node ! (j - 1) \<le> key" if "0 < j" using that j(3) by simp
    show "\<forall>j'. j \<le> j' \<and> j' < length (keys node) \<longrightarrow> key < keys node ! j'" by (rule j(4))
    show "choose_child T node key = Inr (node, int j)" if "n_keys ?c \<noteq> 2 * T - 1"
      using that by (rule a)
    show "\<exists>m. T = int m + 1 \<and> length (keys ?c) = 2 * m + 1 \<and>
      choose_child T node key =
        Inr (split_node T m j node, int (if key > keys ?c ! m then Suc j else j))"
      if "n_keys ?c = 2 * T - 1" using that by (rule b)
  qed
qed

section \<open>Insertion keeps the bookkeeping\<close>

lemma bookkeeping_left_half:
  assumes "bookkeeping c" and "length (keys c) = 2 * m + 1"
  shows "bookkeeping (left_half m c)"
  using assms by (cases c) (auto simp: left_half_def dest: in_set_takeD)

lemma bookkeeping_right_half:
  assumes "bookkeeping c" and "length (keys c) = 2 * m + 1"
  shows "bookkeeping (right_half T m c)"
  using assms by (cases c) (auto simp: right_half_def dest: in_set_dropD)

lemma bookkeeping_n_keys: "bookkeeping c \<Longrightarrow> n_keys c = int (length (keys c))"
  by (cases c) simp

lemma bookkeeping_children: "bookkeeping p \<Longrightarrow> c \<in> set (children p) \<Longrightarrow> bookkeeping c"
  by (cases p) simp

lemma bookkeeping_internal:
  "bookkeeping p \<Longrightarrow> \<not> is_leaf p \<Longrightarrow> length (children p) = Suc (length (keys p))"
  by (cases p) simp


lemma insert_non_full_internal:
  assumes "\<not> is_leaf node" and "choose_child T node key = Inr (node', int j)"
    and "j < length (children node')" and "insert_non_full T (children node' ! j) key = Inr c'"
  shows "insert_non_full T node key = Inr (with_child node' j c')"
  using assms by (subst insert_non_full.simps) (simp add: py_index_nat with_child_def)

lemma insert_non_full_cases [consumes 1, case_names leaf descend split_left split_right]:
  fixes P :: "BTreeNode \<Rightarrow> BTreeNode \<Rightarrow> bool"
  assumes "bookkeeping node"
    and leaf: "\<And>node pre suf.
      \<lbrakk>bookkeeping node; is_leaf node; keys node = pre @ suf; \<forall>x\<in>set suf. key < x;
       pre \<noteq> [] \<longrightarrow> last pre \<le> key\<rbrakk>
      \<Longrightarrow> P node (BTreeNode (node_t node) True (pre @ key # suf) [] (n_keys node + 1))"
    and descend: "\<And>node j c'.
      \<lbrakk>bookkeeping node; \<not> is_leaf node; j \<le> length (keys node);
       0 < j \<longrightarrow> keys node ! (j - 1) \<le> key;
       \<forall>j'. j \<le> j' \<and> j' < length (keys node) \<longrightarrow> key < keys node ! j';
       n_keys (children node ! j) \<noteq> 2 * T - 1;
       insert_non_full T (children node ! j) key = Inr c'; P (children node ! j) c'\<rbrakk>
      \<Longrightarrow> P node (BTreeNode (node_t node) False (keys node)
                   (take j (children node) @ c' # drop (Suc j) (children node)) (n_keys node))"
    and split_left: "\<And>node j m c'.
      \<lbrakk>bookkeeping node; \<not> is_leaf node; j \<le> length (keys node);
       0 < j \<longrightarrow> keys node ! (j - 1) \<le> key;
       \<forall>j'. j \<le> j' \<and> j' < length (keys node) \<longrightarrow> key < keys node ! j';
       T = int m + 1; length (keys (children node ! j)) = 2 * m + 1;
       key \<le> keys (children node ! j) ! m;
       insert_non_full T (left_half m (children node ! j)) key = Inr c';
       P (left_half m (children node ! j)) c'\<rbrakk>
      \<Longrightarrow> P node (BTreeNode (node_t node) False
                   (take j (keys node) @ keys (children node ! j) ! m # drop j (keys node))
                   (take j (children node) @ c' # right_half T m (children node ! j) #
                      drop (Suc j) (children node))
                   (n_keys node + 1))"
    and split_right: "\<And>node j m c'.
      \<lbrakk>bookkeeping node; \<not> is_leaf node; j \<le> length (keys node);
       0 < j \<longrightarrow> keys node ! (j - 1) \<le> key;
       \<forall>j'. j \<le> j' \<and> j' < length (keys node) \<longrightarrow> key < keys node ! j';
       T = int m + 1; length (keys (children node ! j)) = 2 * m + 1;
       keys (children node ! j) ! m < key;
       insert_non_full T (right_half T m (children node ! j)) key = Inr c';
       P (right_half T m (children node ! j)) c'\<rbrakk>
      \<Longrightarrow> P node (BTreeNode (node_t node) False
                   (take j (keys node) @ keys (children node ! j) ! m # drop j (keys node))
                   (take j (children node) @ left_half m (children node ! j) # c' #
                      drop (Suc j) (children node))
                   (n_keys node + 1))"
  shows "\<exists>node'. insert_non_full T node key = Inr node' \<and> P node node'"
  using assms(1)
proof (induction node rule: measure_induct_rule[of size])
  case (less node)
  note bk = \<open>bookkeeping node\<close>
  show ?case
  proof (cases "is_leaf node")
    case True
    from bk have nk: "n_keys node = int (length (keys node))" and cs: "children node = []"
      using True by (simp_all add: bookkeeping_sel[of node])
    from insert_leaf_spec[OF nk, of key] obtain pre suf where ps: "keys node = pre @ suf"
      "\<forall>x\<in>set suf. key < x" "pre \<noteq> [] \<longrightarrow> last pre \<le> key"
      "insert_leaf node key =
         Inr (BTreeNode (node_t node) (is_leaf node) (pre @ key # suf) (children node)
               (n_keys node + 1))"
      by blast
    have "insert_non_full T node key =
        Inr (BTreeNode (node_t node) True (pre @ key # suf) [] (n_keys node + 1))"
      using True ps(4) cs by (subst insert_non_full.simps) simp
    then show ?thesis using leaf[OF bk True ps(1,2,3)] by blast
  next
    case False
    from bk False have nk: "n_keys node = int (length (keys node))"
      and cl: "length (children node) = Suc (length (keys node))"
      and cb: "\<forall>c\<in>set (children node). bookkeeping c"
      by (simp_all add: bookkeeping_sel[of node])
    have ck: "\<forall>c\<in>set (children node). n_keys c = int (length (keys c))"
      using cb by (auto dest: bookkeeping_n_keys)
    from choose_child_spec[OF nk cl ck, of key T]
    obtain j where j: "j \<le> length (keys node)"
      and lo: "0 < j \<longrightarrow> keys node ! (j - 1) \<le> key"
      and hi: "\<forall>j'. j \<le> j' \<and> j' < length (keys node) \<longrightarrow> key < keys node ! j'"
      and nf: "n_keys (children node ! j) \<noteq> 2 * T - 1 \<longrightarrow>
                 choose_child T node key = Inr (node, int j)"
      and fl: "n_keys (children node ! j) = 2 * T - 1 \<longrightarrow>
           (\<exists>m. T = int m + 1 \<and> length (keys (children node ! j)) = 2 * m + 1 \<and>
             choose_child T node key =
               Inr (split_node T m j node,
                    int (if key > keys (children node ! j) ! m then Suc j else j)))"
      by blast
    let ?c = "children node ! j"
    have jl: "j < length (children node)" using j cl by simp
    then have cin: "?c \<in> set (children node)" by simp
    have bc: "bookkeeping ?c" using cb cin by blast
    show ?thesis
    proof (cases "n_keys ?c = 2 * T - 1")
      case nfull: False
      have ch: "choose_child T node key = Inr (node, int j)" using nf nfull by simp
      from less.IH[OF size_child[OF cin] bc]
      obtain c' where c': "insert_non_full T ?c key = Inr c'" "P ?c c'" by blast
      from insert_non_full_internal[OF False ch jl c'(1)]
      have "insert_non_full T node key =
          Inr (BTreeNode (node_t node) False (keys node)
                (take j (children node) @ c' # drop (Suc j) (children node)) (n_keys node))"
        using False jl by (simp add: with_child_def upd_conv_take_nth_drop)
      then show ?thesis using descend[OF bk False j lo hi nfull c'] by blast
    next
      case full: True
      from fl full obtain m where m: "T = int m + 1" "length (keys ?c) = 2 * m + 1"
        and ch: "choose_child T node key =
               Inr (split_node T m j node, int (if key > keys ?c ! m then Suc j else j))"
        by blast
      let ?n = "split_node T m j node"
      have len: "length (children ?n) = Suc (Suc (length (keys node)))"
        using jl cl by (simp add: children_split_node)
      show ?thesis
      proof (cases "key > keys ?c ! m")
        case gt: True
        have nth: "children ?n ! Suc j = right_half T m ?c"
          using jl by (simp add: children_split_node nth_append)
        have sz: "size (right_half T m ?c) < size node"
          using choose_child_size[OF ch, of "right_half T m ?c"] jl
          by (simp add: children_split_node)
        from less.IH[OF sz bookkeeping_right_half[OF bc m(2)]]
        obtain c' where c': "insert_non_full T (right_half T m ?c) key = Inr c'"
          "P (right_half T m ?c) c'" by blast
        have upd: "(children ?n)[Suc j := c'] =
            take j (children node) @ left_half m ?c # c' # drop (Suc j) (children node)"
          using jl by (simp add: children_split_node list_update_append)
        have ch': "choose_child T node key = Inr (?n, int (Suc j))"
          using ch gt by (simp only: if_True)
        have "Suc j < length (children ?n)" using j len by simp
        from insert_non_full_internal[OF False ch' this] c'(1) nth
        have "insert_non_full T node key = Inr (with_child ?n (Suc j) c')" by simp
        also have "with_child ?n (Suc j) c' = BTreeNode (node_t node) False
                   (take j (keys node) @ keys ?c ! m # drop j (keys node))
                   (take j (children node) @ left_half m ?c # c' # drop (Suc j) (children node))
                   (n_keys node + 1)"
          unfolding with_child_def upd using False by (simp add: split_node_def)
        finally have "insert_non_full T node key =
          Inr (BTreeNode (node_t node) False
                   (take j (keys node) @ keys ?c ! m # drop j (keys node))
                   (take j (children node) @ left_half m ?c # c' # drop (Suc j) (children node))
                   (n_keys node + 1))" .
        then show ?thesis using split_right[OF bk False j lo hi m gt c'] by blast
      next
        case le: False
        have nth: "children ?n ! j = left_half m ?c"
          using jl by (simp add: children_split_node nth_append)
        have sz: "size (left_half m ?c) < size node"
          using choose_child_size[OF ch, of "left_half m ?c"] jl
          by (simp add: children_split_node)
        from less.IH[OF sz bookkeeping_left_half[OF bc m(2)]]
        obtain c' where c': "insert_non_full T (left_half m ?c) key = Inr c'"
          "P (left_half m ?c) c'" by blast
        have upd: "(children ?n)[j := c'] =
            take j (children node) @ c' # right_half T m ?c # drop (Suc j) (children node)"
          using jl by (simp add: children_split_node list_update_append)
        have kle: "key \<le> keys ?c ! m" using le by simp
        have ch': "choose_child T node key = Inr (?n, int j)"
          using ch le by (simp only: if_False)
        have "j < length (children ?n)" using j len by simp
        from insert_non_full_internal[OF False ch' this] c'(1) nth
        have "insert_non_full T node key = Inr (with_child ?n j c')" by simp
        also have "with_child ?n j c' = BTreeNode (node_t node) False
                   (take j (keys node) @ keys ?c ! m # drop j (keys node))
                   (take j (children node) @ c' # right_half T m ?c # drop (Suc j) (children node))
                   (n_keys node + 1)"
          unfolding with_child_def upd using False by (simp add: split_node_def)
        finally have "insert_non_full T node key =
          Inr (BTreeNode (node_t node) False
                   (take j (keys node) @ keys ?c ! m # drop j (keys node))
                   (take j (children node) @ c' # right_half T m ?c # drop (Suc j) (children node))
                   (n_keys node + 1))" .
        then show ?thesis using split_left[OF bk False j lo hi m kle c'] by blast
      qed
    qed
  qed
qed

lemma insert_non_full_bookkeeping:
  assumes "bookkeeping node"
  shows "\<exists>node'. insert_non_full T node key = Inr node' \<and>
           (bookkeeping node' \<and> is_leaf node' = is_leaf node)"
  using assms
proof (induct rule: insert_non_full_cases)
  case (leaf node pre suf)
  then show ?case by (simp add: bookkeeping_n_keys)
next
  case (descend node j c')
  then show ?case
    by (auto simp: bookkeeping_sel[of node] dest: in_set_takeD in_set_dropD)
next
  case (split_left node j m c')
  let ?c = "children node ! j"
  from split_left have jl: "j < length (children node)"
    by (simp add: bookkeeping_internal)
  then have bc: "bookkeeping ?c" using split_left(1) by (auto intro: bookkeeping_children)
  have "bookkeeping (right_half T m ?c)" using bc split_left(7) by (rule bookkeeping_right_half)
  with split_left jl show ?case
    by (auto simp: bookkeeping_sel[of node] dest: in_set_takeD in_set_dropD)
next
  case (split_right node j m c')
  let ?c = "children node ! j"
  from split_right have jl: "j < length (children node)"
    by (simp add: bookkeeping_internal)
  then have bc: "bookkeeping ?c" using split_right(1) by (auto intro: bookkeeping_children)
  have "bookkeeping (left_half m ?c)" using bc split_right(7) by (rule bookkeeping_left_half)
  with split_right jl show ?case
    by (auto simp: bookkeeping_sel[of node] dest: in_set_takeD in_set_dropD)
qed

lemma bookkeeping_init: "bookkeeping (BTreeNode_init T True)"
  by (simp add: BTreeNode_init_def)

lemma BTree_insert_bookkeeping:
  assumes "bookkeeping (tree_root tr)"
  shows "\<exists>tr'. BTree_insert tr key = Inr tr' \<and> bookkeeping (tree_root tr') \<and>
           tree_t tr' = tree_t tr"
proof (cases "n_keys (tree_root tr) = 2 * tree_t tr - 1")
  case False
  from insert_non_full_bookkeeping[OF assms, of "tree_t tr" key]
  obtain r where "insert_non_full (tree_t tr) (tree_root tr) key = Inr r" "bookkeeping r"
    by blast
  with False show ?thesis by (simp add: BTree_insert_def)
next
  case True
  let ?T = "tree_t tr" and ?r = "tree_root tr"
  let ?s = "BTreeNode ?T False [] [?r] 0"
  define m where "m = nat (?T - 1)"
  have lk: "n_keys ?r = int (length (keys ?r))" using assms by (rule bookkeeping_n_keys)
  with True have T: "?T = int m + 1" and len: "length (keys ?r) = 2 * m + 1"
    by (auto simp: m_def)
  have "split_child (int m + 1) ?s (int 0) = Inr (split_node (int m + 1) m 0 ?s)"
    using len by (intro split_child_nat) simp_all
  then have sp: "split_child ?T ?s 0 = Inr (split_node ?T m 0 ?s)" using T by simp
  have "bookkeeping (split_node ?T m 0 ?s)"
    using bookkeeping_left_half[OF assms len] bookkeeping_right_half[OF assms len, of ?T]
    by (simp add: split_node_def)
  from insert_non_full_bookkeeping[OF this, of ?T key]
  obtain r where "insert_non_full ?T (split_node ?T m 0 ?s) key = Inr r" "bookkeeping r"
    by blast
  with True sp show ?thesis
    by (simp add: BTree_insert_def BTreeNode_init_def py_insert_def py_bound_def)
qed

lemma insert_all_bookkeeping:
  assumes "bookkeeping (tree_root tr)"
  shows "\<exists>tr'. insert_all tr ks = Inr tr' \<and> bookkeeping (tree_root tr') \<and>
           tree_t tr' = tree_t tr"
  using assms
proof (induction ks arbitrary: tr)
  case Nil
  then show ?case by simp
next
  case (Cons k ks)
  from BTree_insert_bookkeeping[OF Cons.prems, of k] obtain tr1 where
    t1: "BTree_insert tr k = Inr tr1" "bookkeeping (tree_root tr1)" "tree_t tr1 = tree_t tr"
    by blast
  from Cons.IH[OF t1(2)] t1(1,3) show ?case by auto
qed

section \<open>Search follows the specification\<close>

lemma search_recursive_unfold:
  assumes "n_keys node = int (length (keys node))"
  shows "search_recursive node key =
     (let i = length (takeWhile (\<lambda>k. k < key) (keys node))
      in if i < length (keys node) \<and> keys node ! i = key then Inr (Some (node, int i))
         else if is_leaf node then Inr None
         else (case py_index (length (children node)) (int i) of
                 Inl e \<Rightarrow> Inl e
               | Inr j \<Rightarrow> search_recursive (children node ! j) key))"
proof -
  let ?i = "length (takeWhile (\<lambda>k. k < key) (keys node))"
  have sc: "search_scan node key 0 = Inr (int ?i)"
    using search_scan_spec[OF assms, of 0 key] by simp
  have il: "?i \<le> length (keys node)" by (rule length_takeWhile_le)
  have ka: "key_at node key (int ?i) = Inr (?i < length (keys node) \<and> keys node ! ?i = key)"
    using assms by (auto simp: key_at_def py_get_nat)
  show ?thesis
    by (subst search_recursive.simps) (auto simp: sc ka Let_def split: bool.splits)
qed

lemma search_recursive_refines:
  "bookkeeping node \<Longrightarrow> search_recursive node key = Inr (search_spec node key)"
proof (induction node key rule: search_spec.induct)
  case (1 t leaf ks cs n key)
  let ?node = "BTreeNode t leaf ks cs n"
  let ?i = "length (takeWhile (\<lambda>k. k < key) ks)"
  from "1.prems" have nk: "n_keys ?node = int (length (keys ?node))" by simp
  note unf = search_recursive_unfold[OF nk, of key]
  show ?case
  proof (cases "(?i < length ks \<and> ks ! ?i = key) \<or> leaf")
    case True
    then show ?thesis using unf by (auto simp: Let_def)
  next
    case False
    then have nl: "\<not> leaf" and nm: "\<not> (?i < length ks \<and> ks ! ?i = key)" by auto
    have "?i \<le> length ks" by (rule length_takeWhile_le)
    with "1.prems" nl have il: "?i < length cs" by simp
    then have "bookkeeping (cs ! ?i)" using "1.prems" by simp
    with "1.IH"[OF refl nm nl il]
    have ih: "search_recursive (cs ! ?i) key = Inr (search_spec (cs ! ?i) key)"
      by simp
    have "search_recursive ?node key = search_recursive (cs ! ?i) key"
      using unf nl nm il by (auto simp: Let_def py_index_nat)
    moreover have "search_spec ?node key = search_spec (cs ! ?i) key"
      using nl nm il by (auto simp: Let_def)
    ultimately show ?thesis using ih by simp
  qed
qed

lemma search_spec_bookkeeping:
  "bookkeeping node \<Longrightarrow> search_spec node key = Some (n, i) \<Longrightarrow> bookkeeping n"
proof (induction node key rule: search_spec.induct)
  case (1 t leaf ks cs n' key)
  let ?i = "length (takeWhile (\<lambda>k. k < key) ks)"
  show ?case
  proof (cases "?i < length ks \<and> ks ! ?i = key")
    case True
    with "1.prems" show ?thesis by (auto simp: Let_def)
  next
    case False
    with "1.prems"(2) have nl: "\<not> leaf" and il: "?i < length cs"
      and s: "search_spec (cs ! ?i) key = Some (n, i)"
      by (auto simp: Let_def split: if_splits)
    have "bookkeeping (cs ! ?i)" using "1.prems"(1) il by simp
    from "1.IH"[OF refl False nl il this s] show ?thesis .
  qed
qed

section \<open>Insertion by cases\<close>

lemma insert_non_full_induct [consumes 1, case_names leaf descend split_left split_right]:
  fixes P :: "BTreeNode \<Rightarrow> BTreeNode \<Rightarrow> bool"
  assumes "bookkeeping node"
    and leaf: "\<And>node pre suf node'.
      \<lbrakk>bookkeeping node; is_leaf node; keys node = pre @ suf; \<forall>x\<in>set suf. key < x;
       pre \<noteq> [] \<longrightarrow> last pre \<le> key;
       node' = BTreeNode (node_t node) True (pre @ key # suf) [] (n_keys node + 1);
       bookkeeping node'\<rbrakk>
      \<Longrightarrow> P node node'"
    and descend: "\<And>node j c c' node'.
      \<lbrakk>bookkeeping node; \<not> is_leaf node; j \<le> length (keys node);
       length (children node) = Suc (length (keys node));
       0 < j \<longrightarrow> keys node ! (j - 1) \<le> key;
       \<forall>j'. j \<le> j' \<and> j' < length (keys node) \<longrightarrow> key < keys node ! j';
       c = children node ! j; n_keys c \<noteq> 2 * T - 1; bookkeeping c;
       bookkeeping c'; is_leaf c' = is_leaf c; P c c';
       node' = BTreeNode (node_t node) False (keys node)
                 (take j (children node) @ c' # drop (Suc j) (children node)) (n_keys node);
       bookkeeping node'\<rbrakk>
      \<Longrightarrow> P node node'"
    and split_left: "\<And>node j m c c' node'.
      \<lbrakk>bookkeeping node; \<not> is_leaf node; j \<le> length (keys node);
       length (children node) = Suc (length (keys node));
       0 < j \<longrightarrow> keys node ! (j - 1) \<le> key;
       \<forall>j'. j \<le> j' \<and> j' < length (keys node) \<longrightarrow> key < keys node ! j';
       c = children node ! j; T = int m + 1; length (keys c) = 2 * m + 1;
       key \<le> keys c ! m; bookkeeping c;
       bookkeeping (left_half m c); bookkeeping (right_half T m c);
       bookkeeping c'; is_leaf c' = is_leaf c; P (left_half m c) c';
       node' = BTreeNode (node_t node) False
                 (take j (keys node) @ keys c ! m # drop j (keys node))
                 (take j (children node) @ c' # right_half T m c # drop (Suc j) (children node))
                 (n_keys node + 1);
       bookkeeping node'\<rbrakk>
      \<Longrightarrow> P node node'"
    and split_right: "\<And>node j m c c' node'.
      \<lbrakk>bookkeeping node; \<not> is_leaf node; j \<le> length (keys node);
       length (children node) = Suc (length (keys node));
       0 < j \<longrightarrow> keys node ! (j - 1) \<le> key;
       \<forall>j'. j \<le> j' \<and> j' < length (keys node) \<longrightarrow> key < keys node ! j';
       c = children node ! j; T = int m + 1; length (keys c) = 2 * m + 1;
       keys c ! m < key; bookkeeping c;
       bookkeeping (left_half m c); bookkeeping (right_half T m c);
       bookkeeping c'; is_leaf c' = is_leaf c; P (right_half T m c) c';
       node' = BTreeNode (node_t node) False
                 (take j (keys node) @ keys c ! m # drop j (keys node))
                 (take j (children node) @ left_half m c # c' # drop (Suc j) (children node))
                 (n_keys node + 1);
       bookkeeping node'\<rbrakk>
      \<Longrightarrow> P node node'"
  shows "\<exists>node'. insert_non_full T node key = Inr node' \<and> bookkeeping node' \<and>
           is_leaf node' = is_leaf node \<and> P node node'"
proof -
  let ?Q = "\<lambda>n n'. bookkeeping n' \<and> is_leaf n' = is_leaf n \<and> P n n'"
  from assms(1) have "\<exists>node'. insert_non_full T node key = Inr node' \<and> ?Q node node'"
  proof (induct rule: insert_non_full_cases)
    case (leaf node pre suf)
    let ?n' = "BTreeNode (node_t node) True (pre @ key # suf) [] (n_keys node + 1)"
    have b: "bookkeeping ?n'" using leaf by (simp add: bookkeeping_n_keys)
    from assms(2)[OF leaf(1-5) refl b] b leaf(2) show ?case by simp
  next
    case (descend node j c')
    let ?c = "children node ! j"
    let ?n' = "BTreeNode (node_t node) False (keys node)
                 (take j (children node) @ c' # drop (Suc j) (children node)) (n_keys node)"
    have cl: "length (children node) = Suc (length (keys node))"
      using descend(1,2) by (rule bookkeeping_internal)
    then have jl: "j < length (children node)" using descend(3) by simp
    then have bc: "bookkeeping ?c" using descend(1) by (auto intro: bookkeeping_children)
    have b: "bookkeeping ?n'" using descend(1,2,8) jl
      by (auto simp: bookkeeping_sel[of node] dest: in_set_takeD in_set_dropD)
    from assms(3)[OF descend(1-3) cl descend(4,5) refl descend(6) bc _ _ _ refl b] descend(8) b
      descend(2)
    show ?case by simp
  next
    case (split_left node j m c')
    let ?c = "children node ! j"
    let ?n' = "BTreeNode (node_t node) False
                 (take j (keys node) @ keys ?c ! m # drop j (keys node))
                 (take j (children node) @ c' # right_half T m ?c # drop (Suc j) (children node))
                 (n_keys node + 1)"
    have cl: "length (children node) = Suc (length (keys node))"
      using split_left(1,2) by (rule bookkeeping_internal)
    then have jl: "j < length (children node)" using split_left(3) by simp
    then have bc: "bookkeeping ?c" using split_left(1) by (auto intro: bookkeeping_children)
    have bl: "bookkeeping (left_half m ?c)" using bc split_left(7) by (rule bookkeeping_left_half)
    have br: "bookkeeping (right_half T m ?c)" using bc split_left(7) by (rule bookkeeping_right_half)
    have b: "bookkeeping ?n'" using split_left(1,2,10) jl br
      by (auto simp: bookkeeping_sel[of node] dest: in_set_takeD in_set_dropD)
    have "is_leaf (left_half m ?c) = is_leaf ?c" by (simp add: left_half_def)
    with assms(4)[OF split_left(1-3) cl split_left(4,5) refl split_left(6,7,8) bc bl br _ _ _ refl b]
      split_left(10) b split_left(2)
    show ?case by simp
  next
    case (split_right node j m c')
    let ?c = "children node ! j"
    let ?n' = "BTreeNode (node_t node) False
                 (take j (keys node) @ keys ?c ! m # drop j (keys node))
                 (take j (children node) @ left_half m ?c # c' # drop (Suc j) (children node))
                 (n_keys node + 1)"
    have cl: "length (children node) = Suc (length (keys node))"
      using split_right(1,2) by (rule bookkeeping_internal)
    then have jl: "j < length (children node)" using split_right(3) by simp
    then have bc: "bookkeeping ?c" using split_right(1) by (auto intro: bookkeeping_children)
    have bl: "bookkeeping (left_half m ?c)" using bc split_right(7) by (rule bookkeeping_left_half)
    have br: "bookkeeping (right_half T m ?c)" using bc split_right(7) by (rule bookkeeping_right_half)
    have b: "bookkeeping ?n'" using split_right(1,2,10) jl bl
      by (auto simp: bookkeeping_sel[of node] dest: in_set_takeD in_set_dropD)
    have "is_leaf (right_half T m ?c) = is_leaf ?c" by (simp add: right_half_def)
    with assms(5)[OF split_right(1-3) cl split_right(4,5) refl split_right(6,7,8) bc bl br _ _ _ refl b]
      split_right(10) b split_right(2)
    show ?case by simp
  qed
  then show ?thesis by blast
qed

lemma BTree_insert_spec:
  assumes "bookkeeping (tree_root tr)"
  obtains (nonfull) r where "n_keys (tree_root tr) \<noteq> 2 * tree_t tr - 1"
      and "insert_non_full (tree_t tr) (tree_root tr) key = Inr r"
      and "BTree_insert tr key = Inr (tr\<lparr>tree_root := r\<rparr>)"
  | (full) m r where "n_keys (tree_root tr) = 2 * tree_t tr - 1"
      and "tree_t tr = int m + 1" and "length (keys (tree_root tr)) = 2 * m + 1"
      and "bookkeeping (split_root (tree_t tr) m (tree_root tr))"
      and "insert_non_full (tree_t tr) (split_root (tree_t tr) m (tree_root tr)) key = Inr r"
      and "BTree_insert tr key = Inr (tr\<lparr>tree_root := r\<rparr>)"
proof (cases "n_keys (tree_root tr) = 2 * tree_t tr - 1")
  case False
  from insert_non_full_bookkeeping[OF assms, of "tree_t tr" key]
  obtain r where r: "insert_non_full (tree_t tr) (tree_root tr) key = Inr r" by blast
  with False have "BTree_insert tr key = Inr (tr\<lparr>tree_root := r\<rparr>)"
    by (simp add: BTree_insert_def)
  with False r show ?thesis by (rule nonfull)
next
  case True
  let ?T = "tree_t tr" and ?r = "tree_root tr"
  let ?s = "BTreeNode ?T False [] [?r] 0"
  define m where "m = nat (?T - 1)"
  have lk: "n_keys ?r = int (length (keys ?r))" using assms by (rule bookkeeping_n_keys)
  with True have T: "?T = int m + 1" and len: "length (keys ?r) = 2 * m + 1"
    by (auto simp: m_def)
  have "split_child (int m + 1) ?s (int 0) = Inr (split_node (int m + 1) m 0 ?s)"
    using len by (intro split_child_nat) simp_all
  then have "split_child ?T ?s 0 = Inr (split_node ?T m 0 ?s)" using T by simp
  moreover have "split_node ?T m 0 ?s = split_root ?T m ?r"
    by (simp add: split_node_def split_root_def)
  ultimately have sp: "split_child ?T ?s 0 = Inr (split_root ?T m ?r)" by simp
  have bs: "bookkeeping (split_root ?T m ?r)"
    using bookkeeping_left_half[OF assms len] bookkeeping_right_half[OF assms len, of ?T]
    by (simp add: split_root_def)
  from insert_non_full_bookkeeping[OF this, of ?T key]
  obtain r where r: "insert_non_full ?T (split_root ?T m ?r) key = Inr r" by blast
  with True sp have "BTree_insert tr key = Inr (tr\<lparr>tree_root := r\<rparr>)"
    by (simp add: BTree_insert_def BTreeNode_init_def py_insert_def py_bound_def)
  with True T len bs r show ?thesis by (rule full)
qed

section \<open>Insertion and the depth of the leaves\<close>

lemma leaf_depths_sel:
  "leaf_depths node =
     (if is_leaf node then [0] else map Suc (concat (map leaf_depths (children node))))"
  by (cases node) simp

lemma set_leaf_depths_halves:
  "set (leaf_depths (left_half m c)) \<union> set (leaf_depths (right_half T m c)) = set (leaf_depths c)"
proof (cases "is_leaf c")
  case True
  then show ?thesis by (simp add: leaf_depths_sel left_half_def right_half_def)
next
  case False
  have "set (children c) = set (take (Suc m) (children c)) \<union> set (drop (Suc m) (children c))"
    by (metis append_take_drop_id set_append)
  then show ?thesis using False
    by (simp add: leaf_depths_sel[of c] left_half_def right_half_def image_Un)
qed

lemma set_leaf_depths_replace:
  assumes "j < length cs"
  shows "set (leaf_depths (BTreeNode t False ks (take j cs @ xs @ drop (Suc j) cs) n)) =
         Suc ` (\<Union>c\<in>set (take j cs) \<union> set (drop (Suc j) cs). set (leaf_depths c)) \<union>
         Suc ` (\<Union>c\<in>set xs. set (leaf_depths c))"
  by (auto simp: image_Un)

lemma set_leaf_depths_node:
  assumes "j < length cs"
  shows "set (leaf_depths (BTreeNode t False ks cs n)) =
         Suc ` (\<Union>c\<in>set (take j cs) \<union> set (drop (Suc j) cs). set (leaf_depths c)) \<union>
         Suc ` set (leaf_depths (cs ! j))"
proof -
  have "cs = take j cs @ [cs ! j] @ drop (Suc j) cs"
    using assms by (simp add: id_take_nth_drop[symmetric])
  then have "set (leaf_depths (BTreeNode t False ks cs n)) =
      set (leaf_depths (BTreeNode t False ks (take j cs @ [cs ! j] @ drop (Suc j) cs) n))"
    by simp
  also have "\<dots> = Suc ` (\<Union>c\<in>set (take j cs) \<union> set (drop (Suc j) cs). set (leaf_depths c)) \<union>
         Suc ` (\<Union>c\<in>set [cs ! j]. set (leaf_depths c))"
    using assms by (rule set_leaf_depths_replace)
  finally show ?thesis by simp
qed

lemma set_leaf_depths_sel:
  assumes "\<not> is_leaf node" and "j < length (children node)"
  shows "set (leaf_depths node) =
         Suc ` (\<Union>c\<in>set (take j (children node)) \<union> set (drop (Suc j) (children node)).
                  set (leaf_depths c)) \<union>
         Suc ` set (leaf_depths (children node ! j))"
  using set_leaf_depths_node[OF assms(2), of "node_t node" "keys node" "n_keys node"] assms(1)
  by (cases node) simp

lemma insert_non_full_leaf_depths:
  assumes "bookkeeping node"
  shows "\<exists>node'. insert_non_full T node key = Inr node' \<and> bookkeeping node' \<and>
           is_leaf node' = is_leaf node \<and> set (leaf_depths node') = set (leaf_depths node)"
  using assms
proof (induct rule: insert_non_full_induct)
  case (leaf node pre suf node')
  from leaf(2,6) show ?case by (simp add: leaf_depths_sel[of node])
next
  case (descend node j c c' node')
  have jl: "j < length (children node)" using descend(3,4) by simp
  have "set (leaf_depths node') =
      Suc ` (\<Union>c\<in>set (take j (children node)) \<union> set (drop (Suc j) (children node)).
                  set (leaf_depths c)) \<union> Suc ` (\<Union>c\<in>set [c']. set (leaf_depths c))"
    unfolding descend(13) using set_leaf_depths_replace[OF jl, of _ _ "[c']"] by simp
  then show ?case
    unfolding set_leaf_depths_sel[OF descend(2) jl] using descend(7,12) by simp
next
  case (split_left node j m c c' node')
  have jl: "j < length (children node)" using split_left(3,4) by simp
  have "set (leaf_depths node') =
      Suc ` (\<Union>c\<in>set (take j (children node)) \<union> set (drop (Suc j) (children node)).
                  set (leaf_depths c)) \<union>
      Suc ` (\<Union>c\<in>set [c', right_half T m c]. set (leaf_depths c))"
    unfolding split_left(17) using set_leaf_depths_replace[OF jl, of _ _ "[c', right_half T m c]"]
    by simp
  moreover have "(\<Union>c\<in>set [c', right_half T m c]. set (leaf_depths c)) =
      set (leaf_depths (children node ! j))"
    using split_left(16) set_leaf_depths_halves[of m c T] split_left(7) by simp
  ultimately show ?case
    unfolding set_leaf_depths_sel[OF split_left(2) jl] by (simp only:)
next
  case (split_right node j m c c' node')
  have jl: "j < length (children node)" using split_right(3,4) by simp
  have "set (leaf_depths node') =
      Suc ` (\<Union>c\<in>set (take j (children node)) \<union> set (drop (Suc j) (children node)).
                  set (leaf_depths c)) \<union>
      Suc ` (\<Union>c\<in>set [left_half m c, c']. set (leaf_depths c))"
    unfolding split_right(17) using set_leaf_depths_replace[OF jl, of _ _ "[left_half m c, c']"]
    by simp
  moreover have "(\<Union>c\<in>set [left_half m c, c']. set (leaf_depths c)) =
      set (leaf_depths (children node ! j))"
    using split_right(16) set_leaf_depths_halves[of m c T] split_right(7) by simp
  ultimately show ?case
    unfolding set_leaf_depths_sel[OF split_right(2) jl] by (simp only:)
qed

lemma BTree_insert_leaf_depths:
  assumes "bookkeeping (tree_root tr)"
  shows "\<exists>tr'. BTree_insert tr key = Inr tr' \<and> bookkeeping (tree_root tr') \<and>
           tree_t tr' = tree_t tr \<and>
           set (leaf_depths (tree_root tr')) =
             (if n_keys (tree_root tr) = 2 * tree_t tr - 1
              then Suc ` set (leaf_depths (tree_root tr)) else set (leaf_depths (tree_root tr)))"
proof (cases rule: BTree_insert_spec[OF assms, of key, case_names nonfull full])
  case (nonfull r)
  from insert_non_full_leaf_depths[OF assms, of "tree_t tr" key] nonfull show ?thesis by simp
next
  case (full m r)
  let ?s = "split_root (tree_t tr) m (tree_root tr)"
  have "set (leaf_depths ?s) = Suc ` set (leaf_depths (tree_root tr))"
    using set_leaf_depths_halves[of m "tree_root tr" "tree_t tr"]
    by (simp add: split_root_def image_Un[symmetric])
  with insert_non_full_leaf_depths[OF full(4), of "tree_t tr" key] full show ?thesis by simp
qed

lemma leaf_depths_nonempty: "bookkeeping node \<Longrightarrow> leaf_depths node \<noteq> []"
proof (induction node)
  case (BTreeNode t leaf ks cs n)
  show ?case
  proof (cases leaf)
    case True
    then show ?thesis by simp
  next
    case False
    with BTreeNode.prems obtain c cs' where cs: "cs = c # cs'" by (cases cs) auto
    with BTreeNode.IH[of c] BTreeNode.prems have "leaf_depths c \<noteq> []" by simp
    with False cs show ?thesis by simp
  qed
qed

lemma fold_max_const:
  assumes "\<forall>d\<in>set xs. d = h" and "xs \<noteq> []"
  shows "fold max xs (a::nat) = max a h"
  using assms
proof (induction xs arbitrary: a)
  case Nil
  then show ?case by simp
next
  case (Cons x xs)
  show ?case
  proof (cases "xs = []")
    case True
    with Cons.prems show ?thesis by (simp add: max.commute)
  next
    case False
    with Cons.IH[of "max x a"] Cons.prems show ?thesis by (simp add: max.commute)
  qed
qed

lemma height_uniform:
  assumes "set (leaf_depths node) = {h}"
  shows "height node = h"
proof -
  have "leaf_depths node \<noteq> []" using assms by auto
  with assms fold_max_const[of "leaf_depths node" h 0] show ?thesis
    by (simp add: height_def)
qed

lemma insert_all_leaf_depths:
  assumes "bookkeeping (tree_root tr)" and "\<exists>h. set (leaf_depths (tree_root tr)) = {h}"
  shows "\<exists>tr'. insert_all tr ks = Inr tr' \<and> bookkeeping (tree_root tr') \<and>
           tree_t tr' = tree_t tr \<and> (\<exists>h. set (leaf_depths (tree_root tr')) = {h})"
  using assms
proof (induction ks arbitrary: tr)
  case Nil
  then show ?case by simp
next
  case (Cons k ks)
  from BTree_insert_leaf_depths[OF Cons.prems(1), of k] obtain tr1 where
    t1: "BTree_insert tr k = Inr tr1" "bookkeeping (tree_root tr1)" "tree_t tr1 = tree_t tr"
    "set (leaf_depths (tree_root tr1)) =
             (if n_keys (tree_root tr) = 2 * tree_t tr - 1
              then Suc ` set (leaf_depths (tree_root tr)) else set (leaf_depths (tree_root tr)))"
    by blast
  from Cons.prems(2) t1(4) have "\<exists>h. set (leaf_depths (tree_root tr1)) = {h}"
    by (auto split: if_splits)
  from Cons.IH[OF t1(2) this] t1(1,3) show ?case by auto
qed

section \<open>Insertion and the key counts\<close>

lemma within_order_sel:
  "within_order T node \<longleftrightarrow>
     T - 1 \<le> int (length (keys node)) \<and> int (length (keys node)) \<le> 2 * T - 1 \<and>
     (if is_leaf node then children node = []
      else length (children node) = Suc (length (keys node))) \<and>
     (\<forall>c\<in>set (children node). within_order T c)"
  by (cases node) auto

lemma within_orderI:
  assumes "bookkeeping node" and "T - 1 \<le> int (length (keys node))"
    and "int (length (keys node)) \<le> 2 * T - 1" and "\<forall>c\<in>set (children node). within_order T c"
  shows "within_order T node"
  using assms by (cases node) auto

lemma within_order_left_half:
  assumes "within_order T c" and "bookkeeping c" and "T = int m + 1"
    and "length (keys c) = 2 * m + 1"
  shows "within_order T (left_half m c)"
proof (rule within_orderI)
  show "bookkeeping (left_half m c)" using assms(2,4) by (rule bookkeeping_left_half)
  show "T - 1 \<le> int (length (keys (left_half m c)))" using assms(3,4) by (simp add: left_half_def)
  show "int (length (keys (left_half m c))) \<le> 2 * T - 1"
    using assms(3,4) by (simp add: left_half_def)
  show "\<forall>c\<in>set (children (left_half m c)). within_order T c"
    using assms(1) by (auto simp: left_half_def within_order_sel[of T c] dest: in_set_takeD)
qed

lemma within_order_right_half:
  assumes "within_order T c" and "bookkeeping c" and "T = int m + 1"
    and "length (keys c) = 2 * m + 1"
  shows "within_order T (right_half T' m c)"
proof (rule within_orderI)
  show "bookkeeping (right_half T' m c)" using assms(2,4) by (rule bookkeeping_right_half)
  show "T - 1 \<le> int (length (keys (right_half T' m c)))"
    using assms(3,4) by (simp add: right_half_def)
  show "int (length (keys (right_half T' m c))) \<le> 2 * T - 1"
    using assms(3,4) by (simp add: right_half_def)
  show "\<forall>c\<in>set (children (right_half T' m c)). within_order T c"
    using assms(1) by (auto simp: right_half_def within_order_sel[of T c] dest: in_set_dropD)
qed

lemma insert_non_full_order:
  assumes "bookkeeping node"
  shows "\<exists>node'. insert_non_full T node key = Inr node' \<and> bookkeeping node' \<and>
           is_leaf node' = is_leaf node \<and>
           ((\<forall>c\<in>set (children node). within_order T c) \<and>
            int (length (keys node)) < 2 * T - 1 \<longrightarrow>
            (\<forall>c\<in>set (children node'). within_order T c) \<and>
            length (keys node) \<le> length (keys node') \<and>
            length (keys node') \<le> length (keys node) + 1)"
  using assms
proof (induct rule: insert_non_full_induct)
  case (leaf node pre suf node')
  from leaf(3,6) show ?case by simp
next
  case (descend node j c c' node')
  show ?case
  proof (intro impI, elim conjE)
    assume kids: "\<forall>c\<in>set (children node). within_order T c"
    have jl: "j < length (children node)" using descend(3,4) by simp
    then have wc: "within_order T c" using kids descend(7) by simp
    have "n_keys c = int (length (keys c))" using descend(9) by (rule bookkeeping_n_keys)
    with wc descend(8) have "int (length (keys c)) < 2 * T - 1"
      by (simp add: within_order_sel[of T c])
    with descend(12) wc have c': "\<forall>x\<in>set (children c'). within_order T x"
      "length (keys c) \<le> length (keys c')" "length (keys c') \<le> length (keys c) + 1"
      by (simp_all add: within_order_sel[of T c])
    have "within_order T c'"
      using descend(10) c' wc \<open>int (length (keys c)) < 2 * T - 1\<close>
      by (intro within_orderI) (auto simp: within_order_sel[of T c])
    with kids show "(\<forall>c\<in>set (children node'). within_order T c) \<and>
            length (keys node) \<le> length (keys node') \<and>
            length (keys node') \<le> length (keys node) + 1"
      unfolding descend(13) by (auto dest: in_set_takeD in_set_dropD)
  qed
next
  case (split_left node j m c c' node')
  show ?case
  proof (intro impI, elim conjE)
    assume kids: "\<forall>c\<in>set (children node). within_order T c"
    have jl: "j < length (children node)" using split_left(3,4) by simp
    then have wc: "within_order T c" using kids split_left(7) by simp
    have wl: "within_order T (left_half m c)"
      using wc split_left(11,8,9) by (rule within_order_left_half)
    have wr: "within_order T (right_half T m c)"
      using wc split_left(11,8,9) by (rule within_order_right_half)
    have lk: "length (keys (left_half m c)) = m" using split_left(9) by (simp add: left_half_def)
    from wl have "\<forall>x\<in>set (children (left_half m c)). within_order T x"
      by (simp add: within_order_sel[of T "left_half m c"])
    with split_left(16,8) lk have c': "\<forall>x\<in>set (children c'). within_order T x"
      "m \<le> length (keys c')" "length (keys c') \<le> m + 1"
      by simp_all
    have "within_order T c'"
      using split_left(14) c' split_left(8) by (intro within_orderI) auto
    with kids wr show "(\<forall>c\<in>set (children node'). within_order T c) \<and>
            length (keys node) \<le> length (keys node') \<and>
            length (keys node') \<le> length (keys node) + 1"
      unfolding split_left(17) using split_left(3) by (auto dest: in_set_takeD in_set_dropD)
  qed
next
  case (split_right node j m c c' node')
  show ?case
  proof (intro impI, elim conjE)
    assume kids: "\<forall>c\<in>set (children node). within_order T c"
    have jl: "j < length (children node)" using split_right(3,4) by simp
    then have wc: "within_order T c" using kids split_right(7) by simp
    have wl: "within_order T (left_half m c)"
      using wc split_right(11,8,9) by (rule within_order_left_half)
    have wr: "within_order T (right_half T m c)"
      using wc split_right(11,8,9) by (rule within_order_right_half)
    have lk: "length (keys (right_half T m c)) = m"
      using split_right(9) by (simp add: right_half_def)
    from wr have "\<forall>x\<in>set (children (right_half T m c)). within_order T x"
      by (simp add: within_order_sel[of T "right_half T m c"])
    with split_right(16,8) lk have c': "\<forall>x\<in>set (children c'). within_order T x"
      "m \<le> length (keys c')" "length (keys c') \<le> m + 1"
      by simp_all
    have "within_order T c'"
      using split_right(14) c' split_right(8) by (intro within_orderI) auto
    with kids wl show "(\<forall>c\<in>set (children node'). within_order T c) \<and>
            length (keys node) \<le> length (keys node') \<and>
            length (keys node') \<le> length (keys node) + 1"
      unfolding split_right(17) using split_right(3) by (auto dest: in_set_takeD in_set_dropD)
  qed
qed

lemma BTree_insert_order:
  assumes "2 \<le> tree_t tr" and "bookkeeping (tree_root tr)"
    and "\<forall>c\<in>set (children (tree_root tr)). within_order (tree_t tr) c"
    and "int (length (keys (tree_root tr))) \<le> 2 * tree_t tr - 1"
  shows "\<exists>tr'. BTree_insert tr key = Inr tr' \<and> bookkeeping (tree_root tr') \<and>
           tree_t tr' = tree_t tr \<and>
           (\<forall>c\<in>set (children (tree_root tr')). within_order (tree_t tr) c) \<and>
           int (length (keys (tree_root tr'))) \<le> 2 * tree_t tr - 1"
proof (cases rule: BTree_insert_spec[OF assms(2), of key, case_names nonfull full])
  case (nonfull r)
  have "n_keys (tree_root tr) = int (length (keys (tree_root tr)))"
    using assms(2) by (rule bookkeeping_n_keys)
  with nonfull(1) assms(4) have "int (length (keys (tree_root tr))) < 2 * tree_t tr - 1" by simp
  with insert_non_full_order[OF assms(2), of "tree_t tr" key] nonfull(2,3) assms(3)
  show ?thesis by auto
next
  case (full m r)
  let ?T = "tree_t tr" and ?r = "tree_root tr"
  have w: "within_order ?T ?r"
    using assms(2,3) full(2,3) by (intro within_orderI) simp_all
  have "within_order ?T (left_half m ?r)"
    using w assms(2) full(2,3) by (rule within_order_left_half)
  moreover have "within_order ?T (right_half ?T m ?r)"
    using w assms(2) full(2,3) by (rule within_order_right_half)
  ultimately have kids: "\<forall>c\<in>set (children (split_root ?T m ?r)). within_order ?T c"
    by (simp add: split_root_def)
  have len: "int (length (keys (split_root ?T m ?r))) < 2 * ?T - 1"
    using assms(1) by (simp add: split_root_def)
  from insert_non_full_order[OF full(4), of ?T key] full(5) kids len
  have "bookkeeping r" "\<forall>c\<in>set (children r). within_order ?T c"
    "length (keys r) \<le> length (keys (split_root ?T m ?r)) + 1"
    by auto
  with full(6) assms(1) show ?thesis by (simp add: split_root_def)
qed

lemma insert_all_order:
  assumes "2 \<le> tree_t tr" and "bookkeeping (tree_root tr)"
    and "\<forall>c\<in>set (children (tree_root tr)). within_order (tree_t tr) c"
    and "int (length (keys (tree_root tr))) \<le> 2 * tree_t tr - 1"
  shows "\<exists>tr'. insert_all tr ks = Inr tr' \<and> bookkeeping (tree_root tr') \<and>
           tree_t tr' = tree_t tr \<and>
           (\<forall>c\<in>set (children (tree_root tr')). within_order (tree_t tr) c) \<and>
           int (length (keys (tree_root tr'))) \<le> 2 * tree_t tr - 1"
  using assms
proof (induction ks arbitrary: tr)
  case Nil
  then show ?case by simp
next
  case (Cons k ks)
  from BTree_insert_order[OF Cons.prems, of k] obtain tr1 where
    t1: "BTree_insert tr k = Inr tr1" "bookkeeping (tree_root tr1)" "tree_t tr1 = tree_t tr"
    "\<forall>c\<in>set (children (tree_root tr1)). within_order (tree_t tr) c"
    "int (length (keys (tree_root tr1))) \<le> 2 * tree_t tr - 1"
    by blast
  from Cons.IH[of tr1] t1 Cons.prems(1) show ?case by auto
qed

section \<open>Insertion and the traversal\<close>

lemma inorder_sel:
  "inorder node =
     (if is_leaf node then keys node else interleave (map inorder (children node)) (keys node))"
  by (cases node) simp

lemma interleave_Cons: "interleave (x # xs) ks = x @ after_child ks xs"
  by (cases ks) (simp_all add: after_child_def)

lemma interleave_append:
  "length ls = length kl \<Longrightarrow>
     interleave (ls @ xs) (kl @ kr) = before_child ls kl @ interleave xs kr"
  by (induction ls kl rule: list_induct2) (simp_all add: before_child_def)

lemma interleave_at:
  assumes "length ls = length kl"
  shows "interleave (ls @ x # rs) (kl @ kr) = before_child ls kl @ x @ after_child kr rs"
  using interleave_append[OF assms, of "x # rs" kr] by (simp add: interleave_Cons)

lemma before_child_snoc:
  "length ls = length kl \<Longrightarrow> before_child (ls @ [x]) (kl @ [k]) = before_child ls kl @ x @ [k]"
  by (simp add: before_child_def)

lemma after_child_Cons: "after_child (k # ks) (x # xs) = k # x @ after_child ks xs"
  by (simp add: after_child_def interleave_Cons)

lemma after_child_Nil: "after_child [] [] = []"
  by (simp add: after_child_def)

lemma before_child_Cons: "before_child (x # xs) (k # ks) = x @ k # before_child xs ks"
  by (simp add: before_child_def)

lemma before_child_eq_Nil:
  "length ls = length kl \<Longrightarrow> before_child ls kl = [] \<longleftrightarrow> kl = []"
  by (cases ls; cases kl) (simp_all add: before_child_def)

lemma last_before_child:
  "length ls = length kl \<Longrightarrow> kl \<noteq> [] \<Longrightarrow> last (before_child ls kl) = last kl"
proof (induction ls kl rule: list_induct2)
  case Nil
  then show ?case by simp
next
  case (Cons x xs k ks)
  then show ?case
    by (cases "ks = []") (simp_all add: before_child_Cons before_child_eq_Nil)
qed

lemma hd_after_child: "kr \<noteq> [] \<Longrightarrow> hd (after_child kr rs) = hd kr"
  by (cases kr) (simp_all add: after_child_def)

lemma after_child_nonempty: "kr \<noteq> [] \<Longrightarrow> after_child kr rs \<noteq> []"
  by (cases kr) (simp_all add: after_child_def)

text \<open>The traversal of an internal node, cut at child \<open>j\<close>.\<close>

lemma inorder_node_at:
  assumes "j \<le> length ks" and "length cs = Suc (length ks)"
  shows "inorder (BTreeNode t False ks cs n) =
           before_child (map inorder (take j cs)) (take j ks) @ inorder (cs ! j) @
           after_child (drop j ks) (map inorder (drop (Suc j) cs))"
proof -
  have jl: "j < length cs" using assms by simp
  have "map inorder cs = map inorder (take j cs) @ inorder (cs ! j) # map inorder (drop (Suc j) cs)"
    using id_take_nth_drop[OF jl] by (metis list.simps(9) map_append)
  moreover have "ks = take j ks @ drop j ks" by simp
  moreover have "length (map inorder (take j cs)) = length (take j ks)" using assms by simp
  ultimately show ?thesis
    using interleave_at[of "map inorder (take j cs)" "take j ks" "inorder (cs ! j)"
        "map inorder (drop (Suc j) cs)" "drop j ks"]
    by simp
qed

lemma inorder_at:
  assumes "bookkeeping node" and "\<not> is_leaf node" and "j \<le> length (keys node)"
  shows "inorder node =
           before_child (map inorder (take j (children node))) (take j (keys node)) @
           inorder (children node ! j) @
           after_child (drop j (keys node)) (map inorder (drop (Suc j) (children node)))"
  using inorder_node_at[OF assms(3) bookkeeping_internal[OF assms(1,2)], of "node_t node" "n_keys node"]
    assms(2)
  by (cases node) simp

lemma inorder_halves:
  assumes "bookkeeping c" and "length (keys c) = 2 * m + 1"
  shows "inorder c = inorder (left_half m c) @ keys c ! m # inorder (right_half T m c)"
proof (cases "is_leaf c")
  case True
  have "keys c = take m (keys c) @ keys c ! m # drop (Suc m) (keys c)"
    using assms(2) by (intro id_take_nth_drop) simp
  with True show ?thesis by (simp add: inorder_sel left_half_def right_half_def)
next
  case False
  let ?cs = "children c" and ?ks = "keys c"
  have cl: "length ?cs = 2 * m + 2" using bookkeeping_internal[OF assms(1) False] assms(2) by simp
  have k: "drop m ?ks = ?ks ! m # drop (Suc m) ?ks"
    using assms(2) by (intro Cons_nth_drop_Suc[symmetric]) simp
  have c: "drop (Suc m) ?cs = ?cs ! Suc m # drop (Suc (Suc m)) ?cs"
    using cl by (intro Cons_nth_drop_Suc[symmetric]) simp
  have io: "inorder c = before_child (map inorder (take m ?cs)) (take m ?ks) @ inorder (?cs ! m) @
           after_child (drop m ?ks) (map inorder (drop (Suc m) ?cs))"
    using assms(2) by (intro inorder_at[OF assms(1) False]) simp
  have ac: "after_child (drop m ?ks) (map inorder (drop (Suc m) ?cs)) =
      ?ks ! m # inorder (right_half T m c)"
    unfolding k using False by (simp add: after_child_def right_half_def)
  have "take (Suc m) ?cs = take m ?cs @ [?cs ! m]"
    using cl by (intro take_Suc_conv_app_nth) simp
  then have "inorder (left_half m c) =
      interleave (map inorder (take m ?cs) @ inorder (?cs ! m) # []) (take m ?ks @ [])"
    using False by (simp add: left_half_def)
  also have "\<dots> = before_child (map inorder (take m ?cs)) (take m ?ks) @ inorder (?cs ! m) @
      after_child [] []"
    using cl assms(2) by (intro interleave_at) simp
  finally have lh: "inorder (left_half m c) =
      before_child (map inorder (take m ?cs)) (take m ?ks) @ inorder (?cs ! m)"
    by (simp add: after_child_Nil)
  show ?thesis unfolding io ac lh by simp
qed

lemma inorder_replace:
  assumes "j \<le> length ks" and "length cs = Suc (length ks)"
  shows "inorder (BTreeNode t False ks (take j cs @ c' # drop (Suc j) cs) n) =
           before_child (map inorder (take j cs)) (take j ks) @ inorder c' @
           after_child (drop j ks) (map inorder (drop (Suc j) cs))"
  using interleave_at[of "map inorder (take j cs)" "take j ks" "inorder c'"
      "map inorder (drop (Suc j) cs)" "drop j ks"] assms
  by simp

lemma inorder_replace_left:
  assumes "j \<le> length ks" and "length cs = Suc (length ks)"
  shows "inorder (BTreeNode t False (take j ks @ med # drop j ks)
                   (take j cs @ c' # R # drop (Suc j) cs) n) =
           before_child (map inorder (take j cs)) (take j ks) @ (inorder c' @ med # inorder R) @
           after_child (drop j ks) (map inorder (drop (Suc j) cs))"
  using interleave_at[of "map inorder (take j cs)" "take j ks" "inorder c'"
      "inorder R # map inorder (drop (Suc j) cs)" "med # drop j ks"] assms
  by (simp add: after_child_Cons)

lemma inorder_replace_right:
  assumes "j \<le> length ks" and "length cs = Suc (length ks)"
  shows "inorder (BTreeNode t False (take j ks @ med # drop j ks)
                   (take j cs @ L # c' # drop (Suc j) cs) n) =
           before_child (map inorder (take j cs)) (take j ks) @ (inorder L @ med # inorder c') @
           after_child (drop j ks) (map inorder (drop (Suc j) cs))"
  using interleave_at[of "map inorder (take j cs) @ [inorder L]" "take j ks @ [med]" "inorder c'"
      "map inorder (drop (Suc j) cs)" "drop j ks"] assms
  by (simp add: before_child_snoc)

lemma sorted_le_last: "sorted xs \<Longrightarrow> x \<in> set xs \<Longrightarrow> x \<le> (last xs :: int)"
  by (induction xs) (auto split: if_splits)

lemma sorted_hd_le: "sorted xs \<Longrightarrow> x \<in> set xs \<Longrightarrow> (hd xs :: int) \<le> x"
  by (cases xs) auto

lemma sorted_insert_between:
  fixes key :: int
  assumes "sorted (A @ X @ B)" and "sorted X'" and "set X' = insert key (set X)"
    and "A \<noteq> [] \<longrightarrow> last A \<le> key" and "B \<noteq> [] \<longrightarrow> key \<le> hd B"
  shows "sorted (A @ X' @ B)"
proof -
  from assms(1) have sA: "sorted A" and sB: "sorted B"
    and AX: "\<forall>a\<in>set A. \<forall>x\<in>set X. a \<le> x" and AB: "\<forall>a\<in>set A. \<forall>b\<in>set B. a \<le> b"
    and XB: "\<forall>x\<in>set X. \<forall>b\<in>set B. x \<le> b"
    by (auto simp: sorted_append)
  have a: "a \<le> key" if "a \<in> set A" for a
    using sorted_le_last[OF sA that] assms(4) that by force
  have b: "key \<le> b" if "b \<in> set B" for b
    using sorted_hd_le[OF sB that] assms(5) that by force
  show ?thesis
    using sA sB assms(2,3) AX AB XB a b by (auto simp: sorted_append)
qed

lemma before_child_bound:
  fixes key :: int
  assumes "j \<le> length ks" and "length cs = Suc (length ks)"
    and "0 < j \<longrightarrow> ks ! (j - 1) \<le> key"
  shows "before_child (map inorder (take j cs)) (take j ks) \<noteq> [] \<longrightarrow>
           last (before_child (map inorder (take j cs)) (take j ks)) \<le> key"
proof
  assume ne: "before_child (map inorder (take j cs)) (take j ks) \<noteq> []"
  have len: "length (map inorder (take j cs)) = length (take j ks)" using assms(1,2) by simp
  from ne have tk: "take j ks \<noteq> []" by (simp add: before_child_eq_Nil[OF len])
  then have j0: "0 < j" by (cases j) auto
  have "last (take j ks) = ks ! (j - 1)"
    using tk assms(1) by (simp add: last_conv_nth)
  with last_before_child[OF len tk] assms(3) j0
  show "last (before_child (map inorder (take j cs)) (take j ks)) \<le> key" by simp
qed

lemma after_child_bound:
  fixes key :: int
  assumes "j \<le> length ks" and "length cs = Suc (length ks)"
    and "\<forall>j'. j \<le> j' \<and> j' < length ks \<longrightarrow> key < ks ! j'"
  shows "after_child (drop j ks) (map inorder (drop (Suc j) cs)) \<noteq> [] \<longrightarrow>
           key < hd (after_child (drop j ks) (map inorder (drop (Suc j) cs)))"
proof (cases "j < length ks")
  case True
  then have "drop j ks \<noteq> []" by simp
  moreover have "hd (drop j ks) = ks ! j" using True by (rule hd_drop_conv_nth)
  ultimately show ?thesis using assms(3) True by (simp add: hd_after_child)
next
  case False
  with assms(1,2) show ?thesis by (simp add: after_child_Nil)
qed

lemma insert_non_full_inorder:
  assumes "bookkeeping node"
  shows "\<exists>node'. insert_non_full T node key = Inr node' \<and> bookkeeping node' \<and>
           is_leaf node' = is_leaf node \<and>
           (mset (inorder node') = add_mset key (mset (inorder node)) \<and>
            (sorted (inorder node) \<longrightarrow> sorted (inorder node')))"
  using assms
proof (induct rule: insert_non_full_induct)
  case (leaf node pre suf node')
  have io: "inorder node = pre @ suf" and io': "inorder node' = pre @ key # suf"
    using leaf(2,3,6) by (simp_all add: inorder_sel[of node])
  have "sorted (pre @ key # suf)" if s: "sorted (pre @ suf)"
  proof -
    from s have sp: "sorted pre" by (simp add: sorted_append)
    have "x \<le> key" if "x \<in> set pre" for x
      using sorted_le_last[OF sp that] leaf(5) that by force
    with s leaf(4) show ?thesis by (auto simp: sorted_append)
  qed
  then show ?case unfolding io io' by simp
next
  case (descend node j c c' node')
  let ?A = "before_child (map inorder (take j (children node))) (take j (keys node))"
  let ?B = "after_child (drop j (keys node)) (map inorder (drop (Suc j) (children node)))"
  have io: "inorder node = ?A @ inorder c @ ?B"
    unfolding descend(7) using descend(1,2,3) by (rule inorder_at)
  have io': "inorder node' = ?A @ inorder c' @ ?B"
    unfolding descend(13) using descend(3,4) by (rule inorder_replace)
  have m: "mset (inorder c') = add_mset key (mset (inorder c))" using descend(12) by simp
  then have st: "set (inorder c') = insert key (set (inorder c))"
    by (metis set_mset_add_mset_insert set_mset_mset)
  have "sorted (inorder node')" if s: "sorted (inorder node)"
  proof -
    from s have "sorted (inorder c)" unfolding io by (simp add: sorted_append)
    with descend(12) have sc: "sorted (inorder c')" by simp
    have a: "?A \<noteq> [] \<longrightarrow> last ?A \<le> key"
      using descend(3,4,5) by (rule before_child_bound)
    have b: "?B \<noteq> [] \<longrightarrow> key \<le> hd ?B"
      using after_child_bound[OF descend(3,4,6)] by auto
    from s show ?thesis unfolding io io' using sc st a b by (rule sorted_insert_between)
  qed
  then show ?case unfolding io io' using m by simp
next
  case (split_left node j m c c' node')
  let ?A = "before_child (map inorder (take j (children node))) (take j (keys node))"
  let ?B = "after_child (drop j (keys node)) (map inorder (drop (Suc j) (children node)))"
  let ?L = "inorder (left_half m c)" and ?R = "inorder (right_half T m c)"
  let ?med = "keys c ! m"
  have "inorder node = ?A @ inorder c @ ?B"
    unfolding split_left(7) using split_left(1,2,3) by (rule inorder_at)
  then have io: "inorder node = ?A @ ?L @ (?med # ?R @ ?B)"
    using inorder_halves[OF split_left(11,9), of T] by simp
  have "inorder node' = ?A @ (inorder c' @ ?med # ?R) @ ?B"
    unfolding split_left(17) using split_left(3,4) by (rule inorder_replace_left)
  then have io': "inorder node' = ?A @ inorder c' @ (?med # ?R @ ?B)" by simp
  have m: "mset (inorder c') = add_mset key (mset ?L)" using split_left(16) by simp
  then have st: "set (inorder c') = insert key (set ?L)"
    by (metis set_mset_add_mset_insert set_mset_mset)
  have "sorted (inorder node')" if s: "sorted (inorder node)"
  proof -
    from s have "sorted ?L" unfolding io by (simp add: sorted_append)
    with split_left(16) have sc: "sorted (inorder c')" by simp
    have a: "?A \<noteq> [] \<longrightarrow> last ?A \<le> key"
      using split_left(3,4,5) by (rule before_child_bound)
    have b: "?med # ?R @ ?B \<noteq> [] \<longrightarrow> key \<le> hd (?med # ?R @ ?B)"
      using split_left(10) by simp
    from s show ?thesis unfolding io io' using sc st a b by (rule sorted_insert_between)
  qed
  then show ?case unfolding io io' using m by simp
next
  case (split_right node j m c c' node')
  let ?A = "before_child (map inorder (take j (children node))) (take j (keys node))"
  let ?B = "after_child (drop j (keys node)) (map inorder (drop (Suc j) (children node)))"
  let ?L = "inorder (left_half m c)" and ?R = "inorder (right_half T m c)"
  let ?med = "keys c ! m"
  have "inorder node = ?A @ inorder c @ ?B"
    unfolding split_right(7) using split_right(1,2,3) by (rule inorder_at)
  then have io: "inorder node = (?A @ ?L @ [?med]) @ ?R @ ?B"
    using inorder_halves[OF split_right(11,9), of T] by simp
  have "inorder node' = ?A @ (?L @ ?med # inorder c') @ ?B"
    unfolding split_right(17) using split_right(3,4) by (rule inorder_replace_right)
  then have io': "inorder node' = (?A @ ?L @ [?med]) @ inorder c' @ ?B" by simp
  have m: "mset (inorder c') = add_mset key (mset ?R)" using split_right(16) by simp
  then have st: "set (inorder c') = insert key (set ?R)"
    by (metis set_mset_add_mset_insert set_mset_mset)
  have "sorted (inorder node')" if s: "sorted (inorder node)"
  proof -
    from s have "sorted ?R" unfolding io by (simp add: sorted_append)
    with split_right(16) have sc: "sorted (inorder c')" by simp
    have a: "?A @ ?L @ [?med] \<noteq> [] \<longrightarrow> last (?A @ ?L @ [?med]) \<le> key"
      using split_right(10) by simp
    have b: "?B \<noteq> [] \<longrightarrow> key \<le> hd ?B"
      using after_child_bound[OF split_right(3,4,6)] by auto
    from s show ?thesis unfolding io io' using sc st a b by (rule sorted_insert_between)
  qed
  then show ?case unfolding io io' using m by simp
qed

lemma BTree_insert_inorder:
  assumes "bookkeeping (tree_root tr)"
  shows "\<exists>tr'. BTree_insert tr key = Inr tr' \<and> bookkeeping (tree_root tr') \<and>
           tree_t tr' = tree_t tr \<and>
           mset (inorder (tree_root tr')) = add_mset key (mset (inorder (tree_root tr))) \<and>
           (sorted (inorder (tree_root tr)) \<longrightarrow> sorted (inorder (tree_root tr')))"
proof (cases rule: BTree_insert_spec[OF assms, of key, case_names nonfull full])
  case (nonfull r)
  from insert_non_full_inorder[OF assms, of "tree_t tr" key] nonfull show ?thesis by simp
next
  case (full m r)
  let ?s = "split_root (tree_t tr) m (tree_root tr)"
  have "inorder ?s = inorder (tree_root tr)"
    using inorder_halves[OF assms full(3), of "tree_t tr"] by (simp add: split_root_def)
  with insert_non_full_inorder[OF full(4), of "tree_t tr" key] full show ?thesis by simp
qed

lemma insert_all_inorder:
  assumes "bookkeeping (tree_root tr)"
  shows "\<exists>tr'. insert_all tr ks = Inr tr' \<and> bookkeeping (tree_root tr') \<and>
           tree_t tr' = tree_t tr \<and>
           mset (inorder (tree_root tr')) = mset ks + mset (inorder (tree_root tr)) \<and>
           (sorted (inorder (tree_root tr)) \<longrightarrow> sorted (inorder (tree_root tr')))"
  using assms
proof (induction ks arbitrary: tr)
  case Nil
  then show ?case by simp
next
  case (Cons k ks)
  from BTree_insert_inorder[OF Cons.prems, of k] obtain tr1 where
    t1: "BTree_insert tr k = Inr tr1" "bookkeeping (tree_root tr1)" "tree_t tr1 = tree_t tr"
    "mset (inorder (tree_root tr1)) = add_mset k (mset (inorder (tree_root tr)))"
    "sorted (inorder (tree_root tr)) \<longrightarrow> sorted (inorder (tree_root tr1))"
    by blast
  from Cons.IH[OF t1(2)] obtain tr' where
    t': "insert_all tr1 ks = Inr tr'" "bookkeeping (tree_root tr')" "tree_t tr' = tree_t tr1"
    "mset (inorder (tree_root tr')) = mset ks + mset (inorder (tree_root tr1))"
    "sorted (inorder (tree_root tr1)) \<longrightarrow> sorted (inorder (tree_root tr'))"
    by blast
  from t1 t' show ?case by simp
qed

text \<open>What is built from the fresh tree: the keys inserted, in order.\<close>

lemma insert_all_init:
  "\<exists>tr. insert_all (BTree_init T) ks = Inr tr \<and> bookkeeping (tree_root tr) \<and> tree_t tr = T \<and>
     inorder (tree_root tr) = sort ks"
proof -
  have b: "bookkeeping (tree_root (BTree_init T))"
    by (simp add: BTree_init_def bookkeeping_init)
  have e: "inorder (tree_root (BTree_init T)) = []"
    by (simp add: BTree_init_def BTreeNode_init_def)
  from insert_all_inorder[OF b, of ks] obtain tr where
    tr: "insert_all (BTree_init T) ks = Inr tr" "bookkeeping (tree_root tr)" "tree_t tr = T"
    "mset (inorder (tree_root tr)) = mset ks" "sorted (inorder (tree_root tr))"
    unfolding e by (auto simp: BTree_init_def)
  from tr(4,5) have "sort ks = inorder (tree_root tr)" by (rule properties_for_sort)
  with tr show ?thesis by auto
qed

section \<open>Insertion and the place of the new key\<close>







section \<open>Search in an ordered tree\<close>

lemma search_spec_sound:
  assumes "bookkeeping node" and "search_spec node key = Some (n, i)"
  shows "0 \<le> i \<and> nat i < length (keys n) \<and> keys n ! nat i = key \<and> key \<in> set (inorder node)"
  using assms
proof (induction node key rule: search_spec.induct)
  case (1 t leaf ks cs n' key)
  let ?i = "length (takeWhile (\<lambda>k. k < key) ks)"
  let ?node = "BTreeNode t leaf ks cs n'"
  show ?case
  proof (cases "?i < length ks \<and> ks ! ?i = key")
    case True
    with "1.prems"(2) have n: "n = ?node" "i = int ?i" by (auto simp: Let_def)
    have il: "?i \<le> length ks" by (rule length_takeWhile_le)
    have "key \<in> set (inorder ?node)"
    proof (cases leaf)
      case True
      with \<open>?i < length ks \<and> ks ! ?i = key\<close> show ?thesis by (auto simp: in_set_conv_nth)
    next
      case False
      with "1.prems"(1) have cl: "length cs = Suc (length ks)" by simp
      have "drop ?i ks = key # drop (Suc ?i) ks"
        using True by (metis Cons_nth_drop_Suc)
      then have "key \<in> set (after_child (drop ?i ks) (map inorder (drop (Suc ?i) cs)))"
        by (simp add: after_child_def)
      then show ?thesis
        using inorder_node_at[OF il cl, of t n'] False by simp
    qed
    with True n show ?thesis by simp
  next
    case False
    with "1.prems"(2) have nl: "\<not> leaf" and il: "?i < length cs"
      and s: "search_spec (cs ! ?i) key = Some (n, i)"
      by (auto simp: Let_def split: if_splits)
    have bc: "bookkeeping (cs ! ?i)" using "1.prems"(1) il by simp
    from "1.IH"[OF refl False nl il bc s]
    have r: "0 \<le> i \<and> nat i < length (keys n) \<and> keys n ! nat i = key"
      and k: "key \<in> set (inorder (cs ! ?i))" by simp_all
    from "1.prems"(1) nl have cl: "length cs = Suc (length ks)" by simp
    have "?i \<le> length ks" by (rule length_takeWhile_le)
    from inorder_node_at[OF this cl, of t n'] k nl have "key \<in> set (inorder ?node)" by simp
    with r show ?thesis by simp
  qed
qed

lemma search_spec_complete:
  assumes "bookkeeping node" and "sorted (inorder node)" and "key \<in> set (inorder node)"
  shows "\<exists>n i. search_spec node key = Some (n, i)"
  using assms
proof (induction node key rule: search_spec.induct)
  case (1 t leaf ks cs n' key)
  let ?P = "\<lambda>k. k < key"
  let ?i = "length (takeWhile ?P ks)"
  let ?node = "BTreeNode t leaf ks cs n'"
  have il: "?i \<le> length ks" by (rule length_takeWhile_le)
  have tk: "take ?i ks = takeWhile ?P ks" by (rule takeWhile_eq_take[symmetric])
  have lt: "\<forall>x\<in>set (take ?i ks). x < key" unfolding tk by (auto dest: set_takeWhileD)
  show ?case
  proof (cases "?i < length ks \<and> ks ! ?i = key")
    case True
    then show ?thesis by (simp add: Let_def)
  next
    case False
    have gt: "key < ks ! ?i" if "?i < length ks"
      using that False nth_length_takeWhile[OF that] by force
    show ?thesis
    proof (cases leaf)
      case True
      with "1.prems"(2,3) have s: "sorted ks" and k: "key \<in> set ks" by simp_all
      have "ks = take ?i ks @ drop ?i ks" by simp
      with k lt have kd: "key \<in> set (drop ?i ks)"
        by (metis Un_iff less_irrefl set_append)
      then have "?i < length ks" by (cases "?i < length ks") auto
      then have d: "drop ?i ks = ks ! ?i # drop (Suc ?i) ks" by (metis Cons_nth_drop_Suc)
      have "sorted (drop ?i ks)" using s by (rule sorted_wrt_drop)
      with kd have "ks ! ?i \<le> key" unfolding d by auto
      with gt[OF \<open>?i < length ks\<close>] show ?thesis by simp
    next
      case nl: False
      with "1.prems"(1) have cl: "length cs = Suc (length ks)" by simp
      then have ic: "?i < length cs" using il by simp
      let ?A = "before_child (map inorder (take ?i cs)) (take ?i ks)"
      let ?B = "after_child (drop ?i ks) (map inorder (drop (Suc ?i) cs))"
      have io: "inorder ?node = ?A @ inorder (cs ! ?i) @ ?B"
        using inorder_node_at[OF il cl, of t n'] nl by simp
      from "1.prems"(2) have sA: "sorted ?A" and sX: "sorted (inorder (cs ! ?i))" and sB: "sorted ?B"
        unfolding io by (simp_all add: sorted_append)
      have nA: "key \<notin> set ?A"
      proof
        assume ka: "key \<in> set ?A"
        then have ne: "?A \<noteq> []" by auto
        have len: "length (map inorder (take ?i cs)) = length (take ?i ks)" using il cl by simp
        from ne have tne: "take ?i ks \<noteq> []" by (simp add: before_child_eq_Nil[OF len])
        have "key \<le> last ?A" using sA ka by (rule sorted_le_last)
        also have "last ?A = last (take ?i ks)" using len tne by (rule last_before_child)
        also have "\<dots> < key" using lt tne last_in_set by blast
        finally show False by simp
      qed
      have nB: "key \<notin> set ?B"
      proof
        assume kb: "key \<in> set ?B"
        then have ne: "?B \<noteq> []" by auto
        have ilt: "?i < length ks"
        proof (rule ccontr)
          assume "\<not> ?i < length ks"
          with il cl have "?B = []" by (simp add: after_child_Nil)
          with ne show False by simp
        qed
        then have dne: "drop ?i ks \<noteq> []" by simp
        have "hd ?B = hd (drop ?i ks)" using dne by (rule hd_after_child)
        also have "\<dots> = ks ! ?i" using ilt by (rule hd_drop_conv_nth)
        finally have "key < hd ?B" using gt[OF ilt] by simp
        moreover have "hd ?B \<le> key" using sB kb by (rule sorted_hd_le)
        ultimately show False by simp
      qed
      from "1.prems"(3) nA nB have kc: "key \<in> set (inorder (cs ! ?i))" unfolding io by simp
      have bc: "bookkeeping (cs ! ?i)" using "1.prems"(1) ic by simp
      from "1.IH"[OF refl False nl ic bc sX kc] obtain n i where
        "search_spec (cs ! ?i) key = Some (n, i)" by blast
      then show ?thesis using False nl ic by (auto simp: Let_def)
    qed
  qed
qed

section \<open>The order of the subtrees\<close>

lemma child_order_sorted:
  "bookkeeping node \<Longrightarrow> sorted_wrt (<) (inorder node) \<Longrightarrow> child_order node"
proof (induction node)
  case (BTreeNode t leaf ks cs n)
  show ?case
  proof (cases leaf)
    case True
    then show ?thesis by simp
  next
    case False
    with BTreeNode.prems(1) have cl: "length cs = Suc (length ks)" by simp
    have at: "sorted_wrt (<) (inorder (cs ! i)) \<and>
        (\<forall>x\<in>set (inorder (cs ! i)). (0 < i \<longrightarrow> ks ! (i - 1) < x) \<and> (i < length ks \<longrightarrow> x < ks ! i))"
      if il: "i < length cs" for i
    proof -
      let ?A = "before_child (map inorder (take i cs)) (take i ks)"
      let ?B = "after_child (drop i ks) (map inorder (drop (Suc i) cs))"
      have ik: "i \<le> length ks" using il cl by simp
      have io: "inorder (BTreeNode t leaf ks cs n) = ?A @ inorder (cs ! i) @ ?B"
        using inorder_node_at[OF ik cl, of t n] False by simp
      from BTreeNode.prems(2) have sX: "sorted_wrt (<) (inorder (cs ! i))"
        and AX: "\<forall>a\<in>set ?A. \<forall>x\<in>set (inorder (cs ! i)). a < x"
        and XB: "\<forall>x\<in>set (inorder (cs ! i)). \<forall>b\<in>set ?B. x < b"
        unfolding io by (auto simp: sorted_wrt_append)
      have lo: "ks ! (i - 1) \<in> set ?A" if "0 < i"
      proof -
        have len: "length (map inorder (take i cs)) = length (take i ks)" using ik cl by simp
        have tne: "take i ks \<noteq> []" using that ik by (cases ks) auto
        have "last ?A = last (take i ks)" using len tne by (rule last_before_child)
        also have "\<dots> = ks ! (i - 1)" using tne ik by (simp add: last_conv_nth)
        finally have "last ?A = ks ! (i - 1)" .
        moreover have "?A \<noteq> []" using tne by (simp add: before_child_eq_Nil[OF len])
        ultimately show ?thesis using last_in_set by metis
      qed
      have hi: "ks ! i \<in> set ?B" if "i < length ks"
      proof -
        have dne: "drop i ks \<noteq> []" using that by simp
        have "hd ?B = hd (drop i ks)" using dne by (rule hd_after_child)
        also have "\<dots> = ks ! i" using that by (rule hd_drop_conv_nth)
        finally have "hd ?B = ks ! i" .
        moreover have "?B \<noteq> []" using dne by (rule after_child_nonempty)
        ultimately show ?thesis using hd_in_set by metis
      qed
      from sX AX XB lo hi show ?thesis by blast
    qed
    have "child_order c" if "c \<in> set cs" for c
    proof -
      from that obtain i where i: "i < length cs" "c = cs ! i" by (auto simp: in_set_conv_nth)
      from at[OF i(1)] i(2) have s: "sorted_wrt (<) (inorder c)" by simp
      have b: "bookkeeping c" using BTreeNode.prems(1) that by simp
      from that b s show ?thesis by (rule BTreeNode.IH)
    qed
    with at show ?thesis by simp
  qed
qed

section \<open>Binary search\<close>

lemma binary_search_sound:
  "binary_search a key lo hi = Some i \<Longrightarrow> 0 \<le> lo \<Longrightarrow> hi < int (length a) \<Longrightarrow>
     lo \<le> int i \<and> int i \<le> hi \<and> a ! i = key"
proof (induction a key lo hi rule: binary_search.induct)
  case (1 a key lo hi)
  let ?mid = "(lo + hi) div 2"
  from "1.prems"(1) have le: "lo \<le> hi"
    by (subst (asm) binary_search.simps) (simp split: if_splits)
  then have mid: "lo \<le> ?mid" "?mid \<le> hi" by simp_all
  show ?case
  proof (cases "a ! nat ?mid = key")
    case True
    with "1.prems"(1) le have "i = nat ?mid"
      by (subst (asm) binary_search.simps) (simp add: Let_def)
    with True mid "1.prems"(2) show ?thesis by simp
  next
    case False
    show ?thesis
    proof (cases "a ! nat ?mid < key")
      case lt: True
      with "1.prems"(1) le False have "binary_search a key (?mid + 1) hi = Some i"
        by (subst (asm) binary_search.simps) (simp add: Let_def)
      from "1.IH"(1)[OF _ refl False lt this _ "1.prems"(3)] le mid "1.prems"(2)
      show ?thesis by simp
    next
      case ge: False
      with "1.prems"(1) le False have "binary_search a key lo (?mid - 1) = Some i"
        by (subst (asm) binary_search.simps) (simp add: Let_def)
      from "1.IH"(2)[OF _ refl False ge this "1.prems"(2)] le mid "1.prems"(3)
      show ?thesis by simp
    qed
  qed
qed

lemma binary_search_complete:
  "sorted a \<Longrightarrow> 0 \<le> lo \<Longrightarrow> hi < int (length a) \<Longrightarrow> lo \<le> int p \<Longrightarrow> int p \<le> hi \<Longrightarrow>
     a ! p = key \<Longrightarrow> \<exists>i. binary_search a key lo hi = Some i"
proof (induction a key lo hi rule: binary_search.induct)
  case (1 a key lo hi)
  let ?mid = "(lo + hi) div 2"
  from "1.prems"(4,5) have le: "lo \<le> hi" by simp
  then have mid: "lo \<le> ?mid" "?mid \<le> hi" by simp_all
  have pl: "p < length a" using "1.prems"(3,5) by simp
  have ml: "nat ?mid < length a" using mid "1.prems"(2,3) by simp
  show ?case
  proof (cases "a ! nat ?mid = key")
    case True
    with le show ?thesis by (subst binary_search.simps) (simp add: Let_def)
  next
    case False
    show ?thesis
    proof (cases "a ! nat ?mid < key")
      case lt: True
      have "\<not> p \<le> nat ?mid"
      proof
        assume "p \<le> nat ?mid"
        from sorted_nth_mono[OF "1.prems"(1) this ml] lt "1.prems"(6) show False by simp
      qed
      then have "?mid + 1 \<le> int p" using mid "1.prems"(2) by simp
      from "1.IH"(1)[OF _ refl False lt "1.prems"(1) _ "1.prems"(3) this "1.prems"(5,6)]
        le mid "1.prems"(2)
      obtain i where "binary_search a key (?mid + 1) hi = Some i" by auto
      with le False lt show ?thesis by (subst binary_search.simps) (simp add: Let_def)
    next
      case ge: False
      have "\<not> nat ?mid \<le> p"
      proof
        assume "nat ?mid \<le> p"
        from sorted_nth_mono[OF "1.prems"(1) this pl] ge False "1.prems"(6) show False by simp
      qed
      then have "int p \<le> ?mid - 1" using mid "1.prems"(2) by simp
      from "1.IH"(2)[OF _ refl False ge "1.prems"(1,2) _ "1.prems"(4) this "1.prems"(6)]
        le mid "1.prems"(3)
      obtain i where "binary_search a key lo (?mid - 1) = Some i" by auto
      with le False ge show ?thesis by (subst binary_search.simps) (simp add: Let_def)
    qed
  qed
qed

section \<open>The claims\<close>

text \<open>
  C1. For \<open>t \<ge> 2\<close> and any list \<open>ks\<close> of distinct keys (a permutation of the set \<open>K = set ks\<close>)
  the inserts into a fresh \<^verbatim>\<open>BTree(t)\<close> return a tree in which \<^verbatim>\<open>search(k)\<close> returns a pair
  \<open>(node, i)\<close> with \<^verbatim>\<open>node.keys[i] == k\<close> for every \<open>k\<close> in \<open>K\<close> and the miss for every other
  key, and whose in-order traversal is the list of the keys of \<open>K\<close> in strictly increasing
  order.
\<close>

theorem search_finds_inserted_keys:
  assumes "2 \<le> T" and "distinct ks"
  shows "\<exists>tr. insert_all (BTree_init T) ks = Inr tr \<and>
     (\<forall>k\<in>set ks. \<exists>node i. BTree_search tr k = Inr (Some (node, i)) \<and>
        0 \<le> i \<and> py_get (keys node) i = Inr k) \<and>
     (\<forall>k. k \<notin> set ks \<longrightarrow> BTree_search tr k = Inr None) \<and>
     inorder (tree_root tr) = sorted_list_of_set (set ks) \<and>
     sorted_wrt (<) (inorder (tree_root tr))"
proof -
  from insert_all_init[of T ks] obtain tr where
    tr: "insert_all (BTree_init T) ks = Inr tr" "bookkeeping (tree_root tr)"
    "inorder (tree_root tr) = sort ks"
    by blast
  have srch: "BTree_search tr k = Inr (search_spec (tree_root tr) k)" for k
    unfolding BTree_search_def using tr(2) by (rule search_recursive_refines)
  have io: "inorder (tree_root tr) = sorted_list_of_set (set ks)"
    using tr(3) assms(2) by (simp add: sorted_list_of_set_sort_remdups distinct_remdups_id)
  have st: "sorted_wrt (<) (inorder (tree_root tr))"
    unfolding tr(3) using assms(2) by (simp add: strict_sorted_iff)
  have found: "\<exists>node i. BTree_search tr k = Inr (Some (node, i)) \<and>
        0 \<le> i \<and> py_get (keys node) i = Inr k" if "k \<in> set ks" for k
  proof -
    have "sorted (inorder (tree_root tr))" "k \<in> set (inorder (tree_root tr))"
      using that by (simp_all add: tr(3))
    from search_spec_complete[OF tr(2) this] obtain node i where
      s: "search_spec (tree_root tr) k = Some (node, i)" by blast
    from search_spec_sound[OF tr(2) s] have i: "0 \<le> i" "nat i < length (keys node)"
      "keys node ! nat i = k" by simp_all
    from py_get_nat[OF i(2)] i(1,3) have "py_get (keys node) i = Inr k" by simp
    with s i(1) show ?thesis unfolding srch by blast
  qed
  have missed: "BTree_search tr k = Inr None" if "k \<notin> set ks" for k
  proof (cases "search_spec (tree_root tr) k")
    case None
    then show ?thesis unfolding srch by simp
  next
    case (Some r)
    then obtain node i where "search_spec (tree_root tr) k = Some (node, i)" by (cases r) auto
    from search_spec_sound[OF tr(2) this] that show ?thesis by (simp add: tr(3))
  qed
  from tr(1) found missed io st show ?thesis by blast
qed

theorem search_finds_inserted_keys_witness:
  "(2::int) \<le> 3 \<and> distinct [0, 5, 7, 10, 12, 15, 18, 20, 22, 25, 28, 30, 33, 35, 40, 45, 50 :: int] \<and>
   insert_all (BTree_init 3) [0, 5, 7, 10, 12, 15, 18, 20, 22, 25, 28, 30, 33, 35, 40, 45, 50] =
     Inr \<lparr>tree_t = 3, tree_root = BTreeNode 3 False [7, 15, 22, 30]
           [BTreeNode 3 True [0, 5] [] 2, BTreeNode 3 True [10, 12] [] 2,
            BTreeNode 3 True [18, 20] [] 2, BTreeNode 3 True [25, 28] [] 2,
            BTreeNode 3 True [33, 35, 40, 45, 50] [] 5] 4\<rparr> \<and>
   (\<exists>node i. BTree_search \<lparr>tree_t = 3, tree_root = BTreeNode 3 False [7, 15, 22, 30]
           [BTreeNode 3 True [0, 5] [] 2, BTreeNode 3 True [10, 12] [] 2,
            BTreeNode 3 True [18, 20] [] 2, BTreeNode 3 True [25, 28] [] 2,
            BTreeNode 3 True [33, 35, 40, 45, 50] [] 5] 4\<rparr> 25 = Inr (Some (node, i)) \<and>
        0 \<le> i \<and> py_get (keys node) i = Inr 25) \<and>
   BTree_search \<lparr>tree_t = 3, tree_root = BTreeNode 3 False [7, 15, 22, 30]
           [BTreeNode 3 True [0, 5] [] 2, BTreeNode 3 True [10, 12] [] 2,
            BTreeNode 3 True [18, 20] [] 2, BTreeNode 3 True [25, 28] [] 2,
            BTreeNode 3 True [33, 35, 40, 45, 50] [] 5] 4\<rparr> 100 = Inr None \<and>
   inorder (BTreeNode 3 False [7, 15, 22, 30]
           [BTreeNode 3 True [0, 5] [] 2, BTreeNode 3 True [10, 12] [] 2,
            BTreeNode 3 True [18, 20] [] 2, BTreeNode 3 True [25, 28] [] 2,
            BTreeNode 3 True [33, 35, 40, 45, 50] [] 5] 4) =
     [0, 5, 7, 10, 12, 15, 18, 20, 22, 25, 28, 30, 33, 35, 40, 45, 50]"
proof -
  let ?ks = "[0, 5, 7, 10, 12, 15, 18, 20, 22, 25, 28, 30, 33, 35, 40, 45, 50 :: int]"
  let ?tr = "\<lparr>tree_t = 3, tree_root = BTreeNode 3 False [7, 15, 22, 30]
           [BTreeNode 3 True [0, 5] [] 2, BTreeNode 3 True [10, 12] [] 2,
            BTreeNode 3 True [18, 20] [] 2, BTreeNode 3 True [25, 28] [] 2,
            BTreeNode 3 True [33, 35, 40, 45, 50] [] 5] 4\<rparr>"
  have h1: "(2::int) \<le> 3" and h2: "distinct ?ks" by simp_all
  have e: "insert_all (BTree_init 3) ?ks = Inr ?tr" by code_simp
  from search_finds_inserted_keys[OF h1 h2] obtain tr where
    tr: "insert_all (BTree_init 3) ?ks = Inr tr"
    and f: "\<forall>k\<in>set ?ks. \<exists>node i. BTree_search tr k = Inr (Some (node, i)) \<and>
        0 \<le> i \<and> py_get (keys node) i = Inr k"
    and m: "\<forall>k. k \<notin> set ?ks \<longrightarrow> BTree_search tr k = Inr None"
    and s: "inorder (tree_root tr) = sorted_list_of_set (set ?ks)"
    by blast
  from tr e have eq: "tr = ?tr" by simp
  have "25 \<in> set ?ks" by simp
  with f have a: "\<exists>node i. BTree_search tr 25 = Inr (Some (node, i)) \<and>
        0 \<le> i \<and> py_get (keys node) i = Inr 25" by blast
  have "100 \<notin> set ?ks" by simp
  with m have b: "BTree_search tr 100 = Inr None" by blast
  have "sorted_list_of_set (set ?ks) = ?ks" by code_simp
  with s have c: "inorder (tree_root tr) = ?ks" by simp
  from h1 h2 e a b c show ?thesis unfolding eq by simp
qed

text \<open>
  C2. For \<open>t \<ge> 2\<close> and any sequence of keys (distinct or not) the inserts into a fresh
  \<^verbatim>\<open>BTree(t)\<close> return a tree with \<open>root_order t\<close>: every node other than the root has between
  \<open>t - 1\<close> and \<open>2t - 1\<close> keys, every internal node with \<open>k\<close> keys has \<open>k + 1\<close> children and
  every leaf has none, the root included in the last two.
\<close>

theorem key_counts_within_order:
  assumes "2 \<le> T"
  shows "\<exists>tr. insert_all (BTree_init T) ks = Inr tr \<and> root_order T (tree_root tr)"
proof -
  have "2 \<le> tree_t (BTree_init T)" "bookkeeping (tree_root (BTree_init T))"
    "\<forall>c\<in>set (children (tree_root (BTree_init T))). within_order (tree_t (BTree_init T)) c"
    "int (length (keys (tree_root (BTree_init T)))) \<le> 2 * tree_t (BTree_init T) - 1"
    using assms by (simp_all add: BTree_init_def BTreeNode_init_def)
  from insert_all_order[OF this, of ks] obtain tr where
    tr: "insert_all (BTree_init T) ks = Inr tr" "bookkeeping (tree_root tr)"
    "\<forall>c\<in>set (children (tree_root tr)). within_order T c"
    by (auto simp: BTree_init_def)
  have "root_order T (tree_root tr)"
    using tr(2,3) by (cases "tree_root tr") auto
  with tr(1) show ?thesis by blast
qed

theorem key_counts_within_order_witness:
  "(2::int) \<le> 2 \<and>
   insert_all (BTree_init 2) [10, 20, 5, 30, 25, 40, 50, 1] =
     Inr \<lparr>tree_t = 2, tree_root = BTreeNode 2 False [10, 25]
       [BTreeNode 2 True [1, 5] [] 2, BTreeNode 2 True [20] [] 1,
        BTreeNode 2 True [30, 40, 50] [] 3] 2\<rparr> \<and>
   root_order 2 (BTreeNode 2 False [10, 25]
       [BTreeNode 2 True [1, 5] [] 2, BTreeNode 2 True [20] [] 1,
        BTreeNode 2 True [30, 40, 50] [] 3] 2)"
proof -
  have h: "(2::int) \<le> 2" by simp
  have e: "insert_all (BTree_init 2) [10, 20, 5, 30, 25, 40, 50, 1] =
     Inr \<lparr>tree_t = 2, tree_root = BTreeNode 2 False [10, 25]
       [BTreeNode 2 True [1, 5] [] 2, BTreeNode 2 True [20] [] 1,
        BTreeNode 2 True [30, 40, 50] [] 3] 2\<rparr>"
    by code_simp
  from key_counts_within_order[OF h, of "[10, 20, 5, 30, 25, 40, 50, 1]"] e
  have "root_order 2 (BTreeNode 2 False [10, 25]
       [BTreeNode 2 True [1, 5] [] 2, BTreeNode 2 True [20] [] 1,
        BTreeNode 2 True [30, 40, 50] [] 3] 2)"
    by (simp only: sum.inject simp_thms ex_simps BTree.simps) 
  with h e show ?thesis by (intro conjI)
qed

text \<open>
  C3. After any sequence of inserts into a fresh \<^verbatim>\<open>BTree(t)\<close> all leaves of the tree are at
  one depth \<open>h\<close> below the root, and a further \<^verbatim>\<open>insert\<close> returns a tree whose height is
  one more when the root was full (\<^verbatim>\<open>n_keys == 2t - 1\<close>, the case in which \<^verbatim>\<open>insert\<close> puts a
  new root above the old one) and is unchanged otherwise.
\<close>

theorem leaves_same_depth:
  "\<exists>tr. insert_all (BTree_init T) ks = Inr tr \<and>
      (\<exists>h. set (leaf_depths (tree_root tr)) = {h}) \<and>
      (\<forall>key. \<exists>tr'. BTree_insert tr key = Inr tr' \<and>
         (\<exists>h'. set (leaf_depths (tree_root tr')) = {h'}) \<and>
         height (tree_root tr') =
           (if n_keys (tree_root tr) = 2 * T - 1 then height (tree_root tr) + 1
            else height (tree_root tr)))"
proof -
  have b0: "bookkeeping (tree_root (BTree_init T))"
    and d0: "\<exists>h. set (leaf_depths (tree_root (BTree_init T))) = {h}"
    by (simp_all add: BTree_init_def BTreeNode_init_def)
  from insert_all_leaf_depths[OF b0 d0, of ks] obtain tr h where
    tr: "insert_all (BTree_init T) ks = Inr tr" "bookkeeping (tree_root tr)" "tree_t tr = T"
    and h: "set (leaf_depths (tree_root tr)) = {h}"
    by (auto simp: BTree_init_def)
  have "\<exists>tr'. BTree_insert tr key = Inr tr' \<and>
         (\<exists>h'. set (leaf_depths (tree_root tr')) = {h'}) \<and>
         height (tree_root tr') =
           (if n_keys (tree_root tr) = 2 * T - 1 then height (tree_root tr) + 1
            else height (tree_root tr))" for key
  proof -
    from BTree_insert_leaf_depths[OF tr(2), of key] tr(3) obtain tr' where
      t': "BTree_insert tr key = Inr tr'"
      "set (leaf_depths (tree_root tr')) =
             (if n_keys (tree_root tr) = 2 * T - 1
              then Suc ` set (leaf_depths (tree_root tr)) else set (leaf_depths (tree_root tr)))"
      by auto
    show ?thesis
    proof (cases "n_keys (tree_root tr) = 2 * T - 1")
      case True
      with t'(2) h have "set (leaf_depths (tree_root tr')) = {Suc h}" by simp
      with True t'(1) height_uniform[OF this] height_uniform[OF h] show ?thesis by simp
    next
      case False
      with t'(2) h have "set (leaf_depths (tree_root tr')) = {h}" by simp
      with False t'(1) height_uniform[OF this] height_uniform[OF h] show ?thesis by simp
    qed
  qed
  with tr(1) h show ?thesis by blast
qed

theorem leaves_same_depth_witness:
  "insert_all (BTree_init 2) [10, 20, 5] =
     Inr \<lparr>tree_t = 2, tree_root = BTreeNode 2 True [5, 10, 20] [] 3\<rparr> \<and>
   (\<exists>h. set (leaf_depths (BTreeNode 2 True [5, 10, 20] [] 3)) = {h}) \<and>
   (\<exists>tr'. BTree_insert \<lparr>tree_t = 2, tree_root = BTreeNode 2 True [5, 10, 20] [] 3\<rparr> 30 = Inr tr' \<and>
      (\<exists>h'. set (leaf_depths (tree_root tr')) = {h'}) \<and>
      height (tree_root tr') = height (BTreeNode 2 True [5, 10, 20] [] 3) + 1)"
proof -
  have e: "insert_all (BTree_init 2) [10, 20, 5] =
     Inr \<lparr>tree_t = 2, tree_root = BTreeNode 2 True [5, 10, 20] [] 3\<rparr>"
    by code_simp
  from leaves_same_depth[of 2 "[10, 20, 5]"] show ?thesis unfolding e by simp
qed

text \<open>
  C4. Let \<open>child = parent.children[i]\<close> hold exactly \<open>2t - 1\<close> keys, in a parent with one
  child more than keys, the child having one child more than keys too when it is
  internal. Then \<^verbatim>\<open>_split_child(parent, i)\<close> returns, and with \<open>median\<close> the key at position
  \<open>t - 1\<close> of the child: the child keeps exactly its first \<open>t - 1\<close> keys; the sibling, a
  node that was not among the children before, gets exactly the last \<open>t - 1\<close>; an internal
  child keeps its first \<open>t\<close> children and the sibling gets the last \<open>t\<close>; the median
  stands at index \<open>i\<close> of the parent's keys, the sibling at index \<open>i + 1\<close> of its children,
  the other keys and children of the parent are as before; and the parent has one key
  more, in \<^verbatim>\<open>n_keys\<close> and in \<^verbatim>\<open>keys\<close>.
\<close>

theorem split_child_median:
  assumes "0 \<le> i" and "i < int (length (children parent))"
    and "length (children parent) = length (keys parent) + 1"
    and "child = children parent ! nat i"
    and "int (length (keys child)) = 2 * T - 1"
    and "\<not> is_leaf child \<longrightarrow> length (children child) = length (keys child) + 1"
  shows "\<exists>parent'. split_child T parent i = Inr parent' \<and>
     (let child' = children parent' ! nat i;
          sibling = children parent' ! nat (i + 1);
          median = keys child ! nat (T - 1)
      in keys child' = take (nat (T - 1)) (keys child) \<and>
         int (length (keys child')) = T - 1 \<and> n_keys child' = T - 1 \<and>
         keys sibling = drop (nat T) (keys child) \<and>
         int (length (keys sibling)) = T - 1 \<and> n_keys sibling = T - 1 \<and>
         keys child = keys child' @ median # keys sibling \<and>
         is_leaf child' = is_leaf child \<and> is_leaf sibling = is_leaf child \<and>
         (if is_leaf child then children child' = children child \<and> children sibling = []
          else children child' = take (nat T) (children child) \<and>
               children sibling = drop (nat T) (children child) \<and>
               int (length (children child')) = T \<and> int (length (children sibling)) = T) \<and>
         keys parent' = take (nat i) (keys parent) @ median # drop (nat i) (keys parent) \<and>
         keys parent' ! nat i = median \<and>
         children parent' =
           take (nat i) (children parent) @ child' # sibling # drop (nat (i + 1)) (children parent) \<and>
         n_keys parent' = n_keys parent + 1 \<and>
         length (keys parent') = length (keys parent) + 1)"
proof -
  define j where "j = nat i"
  define m where "m = nat (T - 1)"
  have i: "i = int j" using assms(1) by (simp add: j_def)
  have T: "T = int m + 1" and lk: "length (keys child) = 2 * m + 1"
    using assms(5) by (auto simp: m_def)
  have jl: "j < length (children parent)" using assms(2) i by simp
  have jk: "j \<le> length (keys parent)" using jl assms(3) by simp
  have c: "children parent ! j = child" using assms(4) by (simp add: j_def)
  have sp: "split_child T parent i = Inr (split_node T m j parent)"
    unfolding T i using jl lk c by (intro split_child_nat) simp_all
  have nT: "nat T = Suc m" and nT1: "nat (T - 1) = m" and ni: "nat i = j"
    and ni1: "nat (i + 1) = Suc j"
    using T i by simp_all
  have n1: "children (split_node T m j parent) ! j = left_half m child"
    using jl c by (simp add: children_split_node nth_append)
  have n2: "children (split_node T m j parent) ! Suc j = right_half T m child"
    using jl c by (simp add: children_split_node nth_append)
  have kc: "keys child = take m (keys child) @ keys child ! m # drop (Suc m) (keys child)"
    using lk by (intro id_take_nth_drop) simp
  have cc: "length (children child) = 2 * m + 2" if "\<not> is_leaf child"
    using that assms(6) lk by simp
  have kp: "(take j (keys parent) @ keys child ! m # drop j (keys parent)) ! j = keys child ! m"
    using jk by (simp add: nth_append)
  show ?thesis
  proof (rule exI[of _ "split_node T m j parent"], rule conjI[OF sp])
    show "let child' = children (split_node T m j parent) ! nat i;
          sibling = children (split_node T m j parent) ! nat (i + 1);
          median = keys child ! nat (T - 1)
      in keys child' = take (nat (T - 1)) (keys child) \<and>
         int (length (keys child')) = T - 1 \<and> n_keys child' = T - 1 \<and>
         keys sibling = drop (nat T) (keys child) \<and>
         int (length (keys sibling)) = T - 1 \<and> n_keys sibling = T - 1 \<and>
         keys child = keys child' @ median # keys sibling \<and>
         is_leaf child' = is_leaf child \<and> is_leaf sibling = is_leaf child \<and>
         (if is_leaf child then children child' = children child \<and> children sibling = []
          else children child' = take (nat T) (children child) \<and>
               children sibling = drop (nat T) (children child) \<and>
               int (length (children child')) = T \<and> int (length (children sibling)) = T) \<and>
         keys (split_node T m j parent) =
           take (nat i) (keys parent) @ median # drop (nat i) (keys parent) \<and>
         keys (split_node T m j parent) ! nat i = median \<and>
         children (split_node T m j parent) =
           take (nat i) (children parent) @ child' # sibling # drop (nat (i + 1)) (children parent) \<and>
         n_keys (split_node T m j parent) = n_keys parent + 1 \<and>
         length (keys (split_node T m j parent)) = length (keys parent) + 1"
      unfolding Let_def nT nT1 ni ni1 n1 n2
      using kc lk cc T kp jk
      by (simp add: keys_split_node children_split_node c left_half_def right_half_def)
        (simp add: split_node_def)
  qed
qed

theorem split_child_median_witness:
  "(0::int) \<le> 0 \<and> (0::int) < int (length (children (BTreeNode 2 False []
      [BTreeNode 2 False [10, 20, 30]
         [BTreeNode 2 True [5] [] 1, BTreeNode 2 True [15] [] 1, BTreeNode 2 True [25] [] 1,
          BTreeNode 2 True [35] [] 1] 3] 0))) \<and>
   split_child 2 (BTreeNode 2 False []
      [BTreeNode 2 False [10, 20, 30]
         [BTreeNode 2 True [5] [] 1, BTreeNode 2 True [15] [] 1, BTreeNode 2 True [25] [] 1,
          BTreeNode 2 True [35] [] 1] 3] 0) 0 =
     Inr (BTreeNode 2 False [20]
       [BTreeNode 2 False [10] [BTreeNode 2 True [5] [] 1, BTreeNode 2 True [15] [] 1] 1,
        BTreeNode 2 False [30] [BTreeNode 2 True [25] [] 1, BTreeNode 2 True [35] [] 1] 1] 1)"
proof -
  let ?c = "BTreeNode 2 False [10, 20, 30]
         [BTreeNode 2 True [5] [] 1, BTreeNode 2 True [15] [] 1, BTreeNode 2 True [25] [] 1,
          BTreeNode 2 True [35] [] 1] 3"
  let ?p = "BTreeNode 2 False [] [?c] 0"
  have h1: "(0::int) \<le> 0" by simp
  have h2: "0 < int (length (children ?p))" by simp
  have h3: "length (children ?p) = length (keys ?p) + 1" by simp
  have h4: "?c = children ?p ! nat 0" by simp
  have h5: "int (length (keys ?c)) = 2 * 2 - 1" by simp
  have h6: "\<not> is_leaf ?c \<longrightarrow> length (children ?c) = length (keys ?c) + 1" by simp
  from split_child_median[OF h1 h2 h3 h4 h5 h6]
  obtain p' where p': "split_child 2 ?p 0 = Inr p'"
    and "keys p' = take (nat 0) (keys ?p) @ keys ?c ! nat (2 - 1) # drop (nat 0) (keys ?p)"
    and "children p' = take (nat 0) (children ?p) @ children p' ! nat 0 # children p' ! nat (0 + 1) #
            drop (nat (0 + 1)) (children ?p)"
    by (auto simp: Let_def)
  have "split_child 2 ?p 0 =
     Inr (BTreeNode 2 False [20]
       [BTreeNode 2 False [10] [BTreeNode 2 True [5] [] 1, BTreeNode 2 True [15] [] 1] 1,
        BTreeNode 2 False [30] [BTreeNode 2 True [25] [] 1, BTreeNode 2 True [35] [] 1] 1] 1)"
    by code_simp
  with h2 p' show ?thesis by simp
qed

text \<open>
  C5. On a tree built by inserts, \<^verbatim>\<open>search\<close> is the descent the specification describes,
  \<open>search_spec\<close>, started at the root: at each node the first position whose key is
  \<open>\<ge>\<close> the target; the pair \<open>(node, i)\<close> when the key there is the target; otherwise the
  miss at a leaf and the same search in \<open>children[i]\<close> at an internal node. Each step goes
  to one child and nothing is done after it returns.
\<close>

theorem search_is_descent:
  assumes "insert_all (BTree_init T) ks = Inr tr"
  shows "BTree_search tr key = Inr (search_spec (tree_root tr) key)"
proof -
  have "bookkeeping (tree_root (BTree_init T))"
    by (simp add: BTree_init_def bookkeeping_init)
  from insert_all_bookkeeping[OF this, of ks] assms have "bookkeeping (tree_root tr)" by auto
  then show ?thesis unfolding BTree_search_def by (rule search_recursive_refines)
qed

theorem search_is_descent_witness:
  "insert_all (BTree_init 2) [10, 20, 5, 30, 25] =
     Inr \<lparr>tree_t = 2, tree_root = BTreeNode 2 False [10]
            [BTreeNode 2 True [5] [] 1, BTreeNode 2 True [20, 25, 30] [] 3] 1\<rparr> \<and>
   BTree_search \<lparr>tree_t = 2, tree_root = BTreeNode 2 False [10]
            [BTreeNode 2 True [5] [] 1, BTreeNode 2 True [20, 25, 30] [] 3] 1\<rparr> 25 =
     Inr (Some (BTreeNode 2 True [20, 25, 30] [] 3, 1))"
proof -
  have e: "insert_all (BTree_init 2) [10, 20, 5, 30, 25] =
     Inr \<lparr>tree_t = 2, tree_root = BTreeNode 2 False [10]
            [BTreeNode 2 True [5] [] 1, BTreeNode 2 True [20, 25, 30] [] 3] 1\<rparr>"
    by code_simp
  have "BTree_search \<lparr>tree_t = 2, tree_root = BTreeNode 2 False [10]
            [BTreeNode 2 True [5] [] 1, BTreeNode 2 True [20, 25, 30] [] 3] 1\<rparr> 25 =
     Inr (Some (BTreeNode 2 True [20, 25, 30] [] 3, 1))"
  proof -
    have "search_spec (tree_root \<lparr>tree_t = 2, tree_root = BTreeNode 2 False [10]
            [BTreeNode 2 True [5] [] 1, BTreeNode 2 True [20, 25, 30] [] 3] 1\<rparr>) 25 =
        Some (BTreeNode 2 True [20, 25, 30] [] 3, 1)"
      by simp
    then show ?thesis using search_is_descent[OF e, of 25] by (simp only:)
  qed
  with e show ?thesis by (intro conjI)
qed

text \<open>
  C6, as stated, fails: after the inserts 10, 20, 5, 30 into \<^verbatim>\<open>BTree(2)\<close> the root holds
  the key 10 and its child 1 holds 20 and 30, which are not \<open>\<le> 10\<close>.
\<close>

theorem stated_child_order_counterexample:
  "distinct [10, 20, 5, 30 :: int] \<and>
   insert_all (BTree_init 2) [10, 20, 5, 30] =
     Inr \<lparr>tree_t = 2, tree_root = BTreeNode 2 False [10]
            [BTreeNode 2 True [5] [] 1, BTreeNode 2 True [20, 30] [] 2] 1\<rparr> \<and>
   \<not> stated_child_order (BTreeNode 2 False [10]
            [BTreeNode 2 True [5] [] 1, BTreeNode 2 True [20, 30] [] 2] 1)"
proof (intro conjI)
  show "distinct [10, 20, 5, 30 :: int]" by simp
  show "insert_all (BTree_init 2) [10, 20, 5, 30] =
     Inr \<lparr>tree_t = 2, tree_root = BTreeNode 2 False [10]
            [BTreeNode 2 True [5] [] 1, BTreeNode 2 True [20, 30] [] 2] 1\<rparr>"
    by code_simp
  show "\<not> stated_child_order (BTreeNode 2 False [10]
            [BTreeNode 2 True [5] [] 1, BTreeNode 2 True [20, 30] [] 2] 1)"
    by (simp add: lessThan_Suc)
qed

text \<open>
  C6, amended. For \<open>t \<ge> 2\<close> and distinct keys the inserts into a fresh \<^verbatim>\<open>BTree(t)\<close> return a
  tree with \<open>child_order\<close>: in every internal node with \<open>k\<close> keys, every key stored under
  \<open>children[i]\<close> is \<open>> keys[i - 1]\<close> when \<open>i > 0\<close> and \<open>< keys[i]\<close> when \<open>i < k\<close>.
\<close>

theorem child_order_after_inserts:
  assumes "2 \<le> T" and "distinct ks"
  shows "\<exists>tr. insert_all (BTree_init T) ks = Inr tr \<and> child_order (tree_root tr)"
proof -
  from insert_all_init[of T ks] obtain tr where
    tr: "insert_all (BTree_init T) ks = Inr tr" "bookkeeping (tree_root tr)"
    "inorder (tree_root tr) = sort ks"
    by blast
  have "sorted_wrt (<) (inorder (tree_root tr))"
    unfolding tr(3) using assms(2) by (simp add: strict_sorted_iff)
  with tr(2) have "child_order (tree_root tr)" by (rule child_order_sorted)
  with tr(1) show ?thesis by blast
qed

theorem child_order_after_inserts_witness:
  "(2::int) \<le> 2 \<and> distinct [10, 20, 5, 30 :: int] \<and>
   insert_all (BTree_init 2) [10, 20, 5, 30] =
     Inr \<lparr>tree_t = 2, tree_root = BTreeNode 2 False [10]
            [BTreeNode 2 True [5] [] 1, BTreeNode 2 True [20, 30] [] 2] 1\<rparr> \<and>
   child_order (BTreeNode 2 False [10]
            [BTreeNode 2 True [5] [] 1, BTreeNode 2 True [20, 30] [] 2] 1)"
proof -
  let ?ks = "[10, 20, 5, 30 :: int]"
  let ?tr = "\<lparr>tree_t = 2, tree_root = BTreeNode 2 False [10]
            [BTreeNode 2 True [5] [] 1, BTreeNode 2 True [20, 30] [] 2] 1\<rparr>"
  have h1: "(2::int) \<le> 2" and h2: "distinct ?ks" by simp_all
  have e: "insert_all (BTree_init 2) ?ks = Inr ?tr" by code_simp
  from child_order_after_inserts[OF h1 h2] obtain tr where
    t: "insert_all (BTree_init 2) ?ks = Inr tr" "child_order (tree_root tr)"
    by blast
  from t(1) e have "tr = ?tr" by simp
  with t(2) have "child_order (tree_root ?tr)" by simp
  with h1 h2 e show ?thesis by simp
qed

text \<open>
  C7. On every tree built by inserts into a fresh \<^verbatim>\<open>BTree(t)\<close>, the fresh tree included
  (\<open>ks = []\<close>), and for every key, the inserts return a tree and \<^verbatim>\<open>search\<close> returns a value,
  \<open>Inr r\<close>: no exception, in particular no \<^verbatim>\<open>IndexError\<close> of a child or key index.
\<close>

theorem search_never_raises:
  "\<exists>tr. insert_all (BTree_init T) ks = Inr tr \<and> (\<exists>r. BTree_search tr key = Inr r)"
proof -
  have "bookkeeping (tree_root (BTree_init T))"
    by (simp add: BTree_init_def bookkeeping_init)
  from insert_all_bookkeeping[OF this, of ks] obtain tr where
    tr: "insert_all (BTree_init T) ks = Inr tr" "bookkeeping (tree_root tr)" by blast
  from search_recursive_refines[OF tr(2), of key] tr(1) show ?thesis
    by (auto simp: BTree_search_def)
qed

theorem search_never_raises_witness:
  "insert_all (BTree_init 2) [10, 20, 5, 30] =
     Inr \<lparr>tree_t = 2, tree_root = BTreeNode 2 False [10]
            [BTreeNode 2 True [5] [] 1, BTreeNode 2 True [20, 30] [] 2] 1\<rparr> \<and>
   (\<exists>r. BTree_search \<lparr>tree_t = 2, tree_root = BTreeNode 2 False [10]
            [BTreeNode 2 True [5] [] 1, BTreeNode 2 True [20, 30] [] 2] 1\<rparr> 7 = Inr r) \<and>
   (\<exists>r. BTree_search (BTree_init 2) 7 = Inr r)"
proof -
  have e: "insert_all (BTree_init 2) [10, 20, 5, 30] =
     Inr \<lparr>tree_t = 2, tree_root = BTreeNode 2 False [10]
            [BTreeNode 2 True [5] [] 1, BTreeNode 2 True [20, 30] [] 2] 1\<rparr>"
    by code_simp
  have "\<exists>r. BTree_search \<lparr>tree_t = 2, tree_root = BTreeNode 2 False [10]
            [BTreeNode 2 True [5] [] 1, BTreeNode 2 True [20, 30] [] 2] 1\<rparr> 7 = Inr r"
    using search_never_raises[of 2 "[10, 20, 5, 30]" 7] unfolding e by simp
  moreover have "\<exists>r. BTree_search (BTree_init 2) 7 = Inr r"
    using search_never_raises[of 2 "[]" 7] by simp
  ultimately show ?thesis using e by (intro conjI)
qed

text \<open>
  C8. For every model over a sorted, non-empty array, whatever its stage-0 function, its
  leaf functions and their \<^verbatim>\<open>max_error\<close> values are, \<^verbatim>\<open>search(k)\<close> returns an index \<open>i\<close> with
  \<open>A[i] = k\<close> for every key \<open>k\<close> of the array and \<^verbatim>\<open>NotFound\<close> for every other key. And when
  the \<^verbatim>\<open>max_error\<close> of the selected leaf bounds the distance between a position \<open>p\<close> of \<open>k\<close>
  and the leaf's rounded prediction for \<open>k\<close>, the window alone holds the match and no
  fallback runs. Nothing else about the fit is used.
\<close>

theorem rmi_search_exact:
  assumes "sorted (sorted_keys m)" and "sorted_keys m \<noteq> []" and "leaves m \<noteq> []"
  shows "(k \<in> set (sorted_keys m) \<longrightarrow>
            (\<exists>i. fst (RMIModel_search m k) = Some i \<and> i < length (sorted_keys m) \<and>
                 sorted_keys m ! i = k)) \<and>
         (k \<notin> set (sorted_keys m) \<longrightarrow> fst (RMIModel_search m k) = None) \<and>
         (\<forall>p. p < length (sorted_keys m) \<and> sorted_keys m ! p = k \<and>
              \<bar>int p - leaf_model (selected_leaf m k) k\<bar> \<le> int (max_error (selected_leaf m k))
              \<longrightarrow> \<not> snd (RMIModel_search m k))"
proof -
  let ?a = "sorted_keys m"
  let ?n = "int (length ?a)"
  let ?pred = "leaf_model (selected_leaf m k) k"
  let ?approx = "clip ?pred 0 (?n - 1)"
  let ?bound = "int (max_error (selected_leaf m k))"
  let ?lo = "max 0 (?approx - ?bound)"
  let ?hi = "min (?n - 1) (?approx + ?bound)"
  have unf: "RMIModel_search m k =
      (case binary_search ?a k ?lo ?hi of
         Some i \<Rightarrow> (Some i, False)
       | None \<Rightarrow> (binary_search ?a k 0 (?n - 1), True))"
    by (simp add: RMIModel_search_def RMIModel_predict_def Let_def)
  have lo: "0 \<le> ?lo" and hi: "?hi < ?n" and n1: "?n - 1 < ?n" by simp_all
  have snd_ok: "i < length ?a \<and> ?a ! i = k" if "binary_search ?a k l h = Some i"
    and "0 \<le> l" and "h < ?n" for l h i
    using binary_search_sound[OF that] that(3) by auto
  have present: "\<exists>i. fst (RMIModel_search m k) = Some i \<and> i < length ?a \<and> ?a ! i = k"
    if "k \<in> set ?a"
  proof (cases "binary_search ?a k ?lo ?hi")
    case (Some i)
    with snd_ok[OF Some lo hi] show ?thesis unfolding unf by simp
  next
    case None
    from that obtain p where p: "p < length ?a" "?a ! p = k" by (auto simp: in_set_conv_nth)
    from binary_search_complete[OF assms(1) _ n1 _ _ p(2), of 0] p(1)
    obtain i where i: "binary_search ?a k 0 (?n - 1) = Some i" by auto
    from snd_ok[OF i _ n1] None i show ?thesis unfolding unf by simp
  qed
  have absent: "fst (RMIModel_search m k) = None" if "k \<notin> set ?a"
  proof -
    have "binary_search ?a k l h = None" if "0 \<le> l" "h < ?n" for l h
    proof (cases "binary_search ?a k l h")
      case None
      then show ?thesis .
    next
      case (Some i)
      from snd_ok[OF Some that] \<open>k \<notin> set ?a\<close> show ?thesis by auto
    qed
    from this[OF lo hi] this[OF _ n1] show ?thesis unfolding unf by simp
  qed
  have window: "\<not> snd (RMIModel_search m k)"
    if "p < length ?a \<and> ?a ! p = k \<and> \<bar>int p - ?pred\<bar> \<le> ?bound" for p
  proof -
    from that have p: "p < length ?a" "?a ! p = k" "\<bar>int p - ?pred\<bar> \<le> ?bound" by simp_all
    have "\<bar>int p - ?approx\<bar> \<le> \<bar>int p - ?pred\<bar>"
      using p(1) by (auto simp: clip_def)
    with p(1,3) have "?lo \<le> int p" "int p \<le> ?hi" by auto
    from binary_search_complete[OF assms(1) lo hi this p(2)]
    obtain i where "binary_search ?a k ?lo ?hi = Some i" by auto
    then show ?thesis unfolding unf by simp
  qed
  from present absent window show ?thesis by blast
qed

theorem rmi_search_exact_witness:
  "sorted (map (\<lambda>i. 2 * int i) [0..<100]) \<and> map (\<lambda>i. 2 * int i) [0..<100] \<noteq> [] \<and>
   replicate 4 \<lparr>leaf_model = \<lambda>k. k div 2, max_error = 0\<rparr> \<noteq> [] \<and>
   (\<exists>i. fst (RMIModel_search
          \<lparr>sorted_keys = map (\<lambda>i. 2 * int i) [0..<100], stage0 = \<lambda>k. (4 * k) div 198,
           leaves = replicate 4 \<lparr>leaf_model = \<lambda>k. k div 2, max_error = 0\<rparr>\<rparr> 50) = Some i \<and>
        i < 100 \<and> map (\<lambda>i. 2 * int i) [0..<100] ! i = 50) \<and>
   \<not> snd (RMIModel_search
          \<lparr>sorted_keys = map (\<lambda>i. 2 * int i) [0..<100], stage0 = \<lambda>k. (4 * k) div 198,
           leaves = replicate 4 \<lparr>leaf_model = \<lambda>k. k div 2, max_error = 0\<rparr>\<rparr> 50) \<and>
   fst (RMIModel_search
          \<lparr>sorted_keys = map (\<lambda>i. 2 * int i) [0..<100], stage0 = \<lambda>k. (4 * k) div 198,
           leaves = replicate 4 \<lparr>leaf_model = \<lambda>k. k div 2, max_error = 0\<rparr>\<rparr> 51) = None"
proof -
  let ?a = "map (\<lambda>i. 2 * int i) [0..<100]"
  let ?m = "\<lparr>sorted_keys = ?a, stage0 = \<lambda>k. (4 * k) div 198,
           leaves = replicate 4 \<lparr>leaf_model = \<lambda>k. k div 2, max_error = 0\<rparr>\<rparr>"
  have h1: "sorted (sorted_keys ?m)"
    by (simp add: sorted_map sorted_wrt_iff_nth_less)
  have h2: "sorted_keys ?m \<noteq> []" and h3: "leaves ?m \<noteq> []" by simp_all
  have in50: "50 \<in> set (sorted_keys ?m)" by (auto intro!: image_eqI[of _ _ 25])
  have out51: "51 \<notin> set (sorted_keys ?m)"
  proof
    assume "51 \<in> set (sorted_keys ?m)"
    then obtain x where "2 * int x = 51" by auto
    then show False by presburger
  qed
  have p25: "25 < length (sorted_keys ?m) \<and> sorted_keys ?m ! 25 = 50 \<and>
      \<bar>int 25 - leaf_model (selected_leaf ?m 50) 50\<bar> \<le> int (max_error (selected_leaf ?m 50))"
    by (simp add: selected_leaf_def clip_def)
  from rmi_search_exact[OF h1 h2 h3, of 50] in50 p25
  have a: "\<exists>i. fst (RMIModel_search ?m 50) = Some i \<and> i < length (sorted_keys ?m) \<and>
      sorted_keys ?m ! i = 50" and b: "\<not> snd (RMIModel_search ?m 50)"
    by blast+
  from rmi_search_exact[OF h1 h2 h3, of 51] out51
  have c: "fst (RMIModel_search ?m 51) = None" by blast
  from h1 h2 h3 a b c show ?thesis by simp
qed

text \<open>
  C9. Construction, insert and search keep the bookkeeping: the tree \<^verbatim>\<open>BTree(t)\<close> starts
  with it; on a tree that has it, \<^verbatim>\<open>insert\<close> returns a tree that has it again; \<^verbatim>\<open>search\<close>
  assigns to no field (it is a function of the tree here), and the node it hands out has
  it. \<open>bookkeeping\<close> says of every node that \<^verbatim>\<open>n_keys\<close> is \<^verbatim>\<open>len(keys)\<close>, that an internal
  node has \<^verbatim>\<open>n_keys + 1\<close> children and that a leaf has none.
\<close>

theorem bookkeeping_preserved:
  assumes "bookkeeping (tree_root tr)"
  shows "bookkeeping (tree_root (BTree_init T)) \<and>
         (\<exists>tr'. BTree_insert tr key = Inr tr' \<and> bookkeeping (tree_root tr')) \<and>
         (\<exists>r. BTree_search tr key = Inr r \<and> (\<forall>n i. r = Some (n, i) \<longrightarrow> bookkeeping n))"
proof (intro conjI)
  show "bookkeeping (tree_root (BTree_init T))"
    by (simp add: BTree_init_def bookkeeping_init)
  show "\<exists>tr'. BTree_insert tr key = Inr tr' \<and> bookkeeping (tree_root tr')"
    using BTree_insert_bookkeeping[OF assms, of key] by blast
  show "\<exists>r. BTree_search tr key = Inr r \<and> (\<forall>n i. r = Some (n, i) \<longrightarrow> bookkeeping n)"
    using search_recursive_refines[OF assms, of key] search_spec_bookkeeping[OF assms, of key]
    by (auto simp: BTree_search_def)
qed

theorem bookkeeping_preserved_witness:
  "bookkeeping (BTreeNode 2 True [10, 20, 30] [] 3) \<and>
   bookkeeping (tree_root (BTree_init 2)) \<and>
   BTree_insert \<lparr>tree_t = 2, tree_root = BTreeNode 2 True [10, 20, 30] [] 3\<rparr> 5 =
     Inr \<lparr>tree_t = 2, tree_root = BTreeNode 2 False [20]
            [BTreeNode 2 True [5, 10] [] 2, BTreeNode 2 True [30] [] 1] 1\<rparr> \<and>
   bookkeeping (BTreeNode 2 False [20]
            [BTreeNode 2 True [5, 10] [] 2, BTreeNode 2 True [30] [] 1] 1)"
proof -
  let ?tr = "\<lparr>tree_t = 2, tree_root = BTreeNode 2 True [10, 20, 30] [] 3\<rparr>"
  have h: "bookkeeping (tree_root ?tr)" by simp
  have e: "BTree_insert ?tr 5 =
     Inr \<lparr>tree_t = 2, tree_root = BTreeNode 2 False [20]
            [BTreeNode 2 True [5, 10] [] 2, BTreeNode 2 True [30] [] 1] 1\<rparr>"
    by code_simp
  from bookkeeping_preserved[OF h, of 2 5] e show ?thesis by auto
qed




end
